theory Spec2Isabelle
  imports Main "HOL-Library.AList"
begin

section \<open>Values, thrown errors and the hosting page\<close>

text \<open>
  The queue of \<^verbatim>\<open>src/src/queue.ts\<close> never looks inside an event: it stores, copies,
  serialises and hands over whole values. An event is therefore any JSON value (the
  interface \<^verbatim>\<open>Event\<close> is an object with \<^verbatim>\<open>name\<close>, \<^verbatim>\<open>properties?\<close>,
  \<^verbatim>\<open>timestamp?\<close>; what \<^verbatim>\<open>loadPersistedEvents\<close> adopts at run time is whatever array
  was parsed). Numbers are integers here (time stamps).
\<close>

datatype json =
    JNull
  | JBool bool
  | JNum int
  | JStr string
  | JArr "json list"
  | JObj "(string \<times> json) list"

type_synonym Event = json

text \<open>A thrown JavaScript value.\<close>

datatype error = Error string

text \<open>
  What a cell of \<^verbatim>\<open>localStorage\<close> holds is a string. Only two things are ever done
  with it: it is tested for truthiness and given to \<^verbatim>\<open>JSON.parse\<close>. A string is
  therefore either the serialisation of a JSON value, or a string \<^verbatim>\<open>JSON.parse\<close>
  rejects (the empty string among them).
\<close>

datatype stored = Stringified json | NotJson string

definition JSON_stringify :: "json \<Rightarrow> stored" where
  "JSON_stringify v = Stringified v"

fun JSON_parse :: "stored \<Rightarrow> error + json" where
  "JSON_parse (Stringified v) = Inr v"
| "JSON_parse (NotJson s) = Inl (Error ''SyntaxError'')"

text \<open>JavaScript truthiness of a string and of a JSON value, and \<^verbatim>\<open>Array.isArray\<close>.\<close>

fun stored_truthy :: "stored \<Rightarrow> bool" where
  "stored_truthy (Stringified v) = True"
| "stored_truthy (NotJson s) = (s \<noteq> [])"

fun json_truthy :: "json \<Rightarrow> bool" where
  "json_truthy JNull = False"
| "json_truthy (JBool b) = b"
| "json_truthy (JNum n) = (n \<noteq> 0)"
| "json_truthy (JStr s) = (s \<noteq> [])"
| "json_truthy (JArr xs) = True"
| "json_truthy (JObj kvs) = True"

fun Array_isArray :: "json \<Rightarrow> bool" where
  "Array_isArray (JArr xs) = True"
| "Array_isArray v = False"

definition startsWith :: "string \<Rightarrow> string \<Rightarrow> bool" where
  "startsWith key prefix = (take (length prefix) key = prefix)"

text \<open>
  The page the code runs in: the cells of \<^verbatim>\<open>localStorage\<close> in insertion order, whether
  the storage object can be reached at all (reaching it raises \<^verbatim>\<open>SecurityError\<close> when
  storage is denied, whatever the operation), whether a write is refused for lack of
  room (\<^verbatim>\<open>QuotaExceededError\<close>, raised by \<^verbatim>\<open>setItem\<close> only), and what has been written
  with \<^verbatim>\<open>console.error\<close>.
\<close>

record browser =
  items :: "(string \<times> stored) list"
  accessible :: bool
  quotaExceeded :: bool
  console :: "(string \<times> error) list"

definition localStorage_getItem :: "string \<Rightarrow> browser \<Rightarrow> error + stored option" where
  "localStorage_getItem k w =
     (if accessible w then Inr (map_of (items w) k) else Inl (Error ''SecurityError''))"

definition localStorage_setItem :: "string \<Rightarrow> stored \<Rightarrow> browser \<Rightarrow> error + browser" where
  "localStorage_setItem k v w =
     (if \<not> accessible w then Inl (Error ''SecurityError'')
      else if quotaExceeded w then Inl (Error ''QuotaExceededError'')
      else Inr (w\<lparr>items := AList.update k v (items w)\<rparr>))"

definition localStorage_removeItem :: "string \<Rightarrow> browser \<Rightarrow> error + browser" where
  "localStorage_removeItem k w =
     (if accessible w then Inr (w\<lparr>items := AList.delete k (items w)\<rparr>)
      else Inl (Error ''SecurityError''))"

definition Object_keys_localStorage :: "browser \<Rightarrow> error + string list" where
  "Object_keys_localStorage w =
     (if accessible w then Inr (map fst (items w)) else Inl (Error ''SecurityError''))"

definition console_error :: "string \<Rightarrow> error \<Rightarrow> browser \<Rightarrow> browser" where
  "console_error msg err w = w\<lparr>console := console w @ [(msg, err)]\<rparr>"

section \<open>\<^verbatim>\<open>src/src/utils/storage.ts\<close>: class Storage\<close>

text \<open>
  A \<^verbatim>\<open>Storage\<close> object is its \<^verbatim>\<open>prefix\<close>. Every method returns what it returns or
  throws (\<open>Inl\<close>), together with the page as it leaves it; the \<^verbatim>\<open>try\<close> body and the
  \<^verbatim>\<open>catch\<close> handler are the two branches of the outer \<open>case\<close>.
\<close>

definition Storage_get :: "string \<Rightarrow> string \<Rightarrow> browser \<Rightarrow> (error + json) \<times> browser" where
  "Storage_get prefix key w =
     (case (case localStorage_getItem (prefix @ key) w of
              Inl err \<Rightarrow> Inl err
            | Inr None \<Rightarrow> Inr JNull
            | Inr (Some item) \<Rightarrow> (if stored_truthy item then JSON_parse item else Inr JNull)) of
        Inr v \<Rightarrow> (Inr v, w)
      | Inl err \<Rightarrow> (Inr JNull, console_error ''Storage get error:'' err w))"

definition Storage_set :: "string \<Rightarrow> string \<Rightarrow> json \<Rightarrow> browser \<Rightarrow> (error + bool) \<times> browser" where
  "Storage_set prefix key v w =
     (case localStorage_setItem (prefix @ key) (JSON_stringify v) w of
        Inr w' \<Rightarrow> (Inr True, w')
      | Inl err \<Rightarrow> (Inr False, console_error ''Storage set error:'' err w))"

definition Storage_remove :: "string \<Rightarrow> string \<Rightarrow> browser \<Rightarrow> (error + bool) \<times> browser" where
  "Storage_remove prefix key w =
     (case localStorage_removeItem (prefix @ key) w of
        Inr w' \<Rightarrow> (Inr True, w')
      | Inl err \<Rightarrow> (Inr False, console_error ''Storage remove error:'' err w))"

text \<open>
  The body of \<^verbatim>\<open>keys.forEach\<close> in \<^verbatim>\<open>clear\<close>: a throw stops the loop and keeps the
  removals made so far.
\<close>

fun forEach_remove :: "string \<Rightarrow> string list \<Rightarrow> browser \<Rightarrow> (error + unit) \<times> browser" where
  "forEach_remove prefix [] w = (Inr (), w)"
| "forEach_remove prefix (key # keys) w =
     (if startsWith key prefix
      then (case localStorage_removeItem key w of
              Inl err \<Rightarrow> (Inl err, w)
            | Inr w' \<Rightarrow> forEach_remove prefix keys w')
      else forEach_remove prefix keys w)"

definition Storage_clear :: "string \<Rightarrow> browser \<Rightarrow> (error + bool) \<times> browser" where
  "Storage_clear prefix w =
     (case Object_keys_localStorage w of
        Inl err \<Rightarrow> (Inr False, console_error ''Storage clear error:'' err w)
      | Inr keys \<Rightarrow>
          (case forEach_remove prefix keys w of
             (Inr u, w') \<Rightarrow> (Inr True, w')
           | (Inl err, w') \<Rightarrow> (Inr False, console_error ''Storage clear error:'' err w')))"

section \<open>\<^verbatim>\<open>src/src/queue.ts\<close>: class EventQueue\<close>

text \<open>
  The object's fields, the page it lives in, and the two things the injected sender
  \<^verbatim>\<open>onFlush\<close> makes observable: the batches it has been called with, in order, and the
  batches whose promise has not settled yet (each is the \<^verbatim>\<open>eventsToSend\<close> of a
  \<^verbatim>\<open>flush\<close> suspended at its \<^verbatim>\<open>await\<close>). \<^verbatim>\<open>batchSize\<close> is a JavaScript number that
  nothing checks, so it is any integer.
\<close>

record queue =
  events :: "Event list"
  isProcessing :: bool
  batchSize :: int
  flushInterval :: int
  storage :: string
  window :: browser
  onFlush_calls :: "Event list list"
  awaiting :: "Event list list"

text \<open>The promise an \<^verbatim>\<open>async\<close> function has returned, as its caller sees it.\<close>

datatype promise = Fulfilled | Rejected error | Pending

definition persistEvents :: "queue \<Rightarrow> (error + unit) \<times> queue" where
  "persistEvents q =
     (case Storage_set (storage q) ''events'' (JArr (events q)) (window q) of
        (Inl err, w) \<Rightarrow> (Inl err, q\<lparr>window := w\<rparr>)
      | (Inr ok, w) \<Rightarrow> (Inr (), q\<lparr>window := w\<rparr>))"

definition loadPersistedEvents :: "queue \<Rightarrow> (error + unit) \<times> queue" where
  "loadPersistedEvents q =
     (case Storage_get (storage q) ''events'' (window q) of
        (Inl err, w) \<Rightarrow> (Inl err, q\<lparr>window := w\<rparr>)
      | (Inr persisted, w) \<Rightarrow>
          (if json_truthy persisted \<and> Array_isArray persisted
           then (case persisted of
                   JArr xs \<Rightarrow> (Inr (), q\<lparr>window := w, events := xs\<rparr>)
                 | _ \<Rightarrow> (Inr (), q\<lparr>window := w\<rparr>))
           else (Inr (), q\<lparr>window := w\<rparr>)))"

text \<open>
  \<^verbatim>\<open>flush\<close> up to its \<^verbatim>\<open>await\<close>. An \<^verbatim>\<open>async\<close> function never throws at its caller: a
  throw before the \<^verbatim>\<open>try\<close> rejects the returned promise. Calling the sender records the
  batch and leaves the promise pending.
\<close>

definition EventQueue_flush :: "queue \<Rightarrow> promise \<times> queue" where
  "EventQueue_flush q =
     (if length (events q) = 0 \<or> isProcessing q then (Fulfilled, q)
      else
        (let q1 = q\<lparr>isProcessing := True\<rparr>;
             eventsToSend = events q1;
             q2 = q1\<lparr>events := []\<rparr>
         in case persistEvents q2 of
              (Inl err, q3) \<Rightarrow> (Rejected err, q3)
            | (Inr u, q3) \<Rightarrow>
                (Pending, q3\<lparr>onFlush_calls := onFlush_calls q3 @ [eventsToSend],
                              awaiting := awaiting q3 @ [eventsToSend]\<rparr>)))"

text \<open>
  The rest of \<^verbatim>\<open>flush\<close>, run when the sender's promise settles with \<open>outcome\<close>:
  the \<^verbatim>\<open>catch\<close> handler on a failure, then \<^verbatim>\<open>finally\<close>, and the state in which the
  promise returned by \<^verbatim>\<open>flush\<close> settles.
\<close>

definition EventQueue_flush_resume ::
  "Event list \<Rightarrow> error + unit \<Rightarrow> queue \<Rightarrow> promise \<times> queue" where
  "EventQueue_flush_resume eventsToSend outcome q =
     (case outcome of
        Inr u \<Rightarrow> (Fulfilled, q\<lparr>isProcessing := False\<rparr>)
      | Inl err \<Rightarrow>
          (let q1 = q\<lparr>window := console_error ''Failed to flush events:'' err (window q)\<rparr>;
               q2 = q1\<lparr>events := eventsToSend @ events q1\<rparr>
           in case persistEvents q2 of
                (Inl err', q3) \<Rightarrow> (Rejected err', q3\<lparr>isProcessing := False\<rparr>)
              | (Inr u, q3) \<Rightarrow> (Fulfilled, q3\<lparr>isProcessing := False\<rparr>)))"

definition EventQueue_add :: "Event \<Rightarrow> queue \<Rightarrow> (error + unit) \<times> queue" where
  "EventQueue_add event q =
     (let q1 = q\<lparr>events := events q @ [event]\<rparr>
      in case persistEvents q1 of
           (Inl err, q2) \<Rightarrow> (Inl err, q2)
         | (Inr u, q2) \<Rightarrow>
             (if batchSize q2 \<le> int (length (events q2))
              then (Inr (), snd (EventQueue_flush q2))
              else (Inr (), q2)))"

definition EventQueue_size :: "queue \<Rightarrow> nat" where
  "EventQueue_size q = length (events q)"

definition EventQueue_clear :: "queue \<Rightarrow> (error + unit) \<times> queue" where
  "EventQueue_clear q =
     (let q1 = q\<lparr>events := []\<rparr>
      in case Storage_clear (storage q1) (window q1) of
           (Inl err, w) \<Rightarrow> (Inl err, q1\<lparr>window := w\<rparr>)
         | (Inr ok, w) \<Rightarrow> (Inr (), q1\<lparr>window := w\<rparr>))"

text \<open>The callback \<^verbatim>\<open>startTimer\<close> hands to \<^verbatim>\<open>setInterval\<close>.\<close>

definition timer_callback :: "queue \<Rightarrow> queue" where
  "timer_callback q = (if length (events q) > 0 then snd (EventQueue_flush q) else q)"

text \<open>
  The constructor, in a page \<open>w\<close>: a new object with its field initialisers, the
  \<^verbatim>\<open>Storage\<close> for the prefix \<^verbatim>\<open>analytics_queue_\<close>, and the persisted events adopted.
  A sender that has not been called yet has no call and no pending promise.
\<close>

definition EventQueue_new :: "int \<Rightarrow> int \<Rightarrow> browser \<Rightarrow> error + queue" where
  "EventQueue_new bs fi w =
     (let q0 = \<lparr>events = [], isProcessing = False, batchSize = bs, flushInterval = fi,
                storage = ''analytics_queue_'', window = w,
                onFlush_calls = [], awaiting = []\<rparr>
      in case loadPersistedEvents q0 of
           (Inl err, q1) \<Rightarrow> Inl err
         | (Inr u, q1) \<Rightarrow> Inr q1)"

section \<open>Interleavings\<close>

text \<open>
  The page is single-threaded: between two suspension points a call runs to its end.
  What can happen to one queue object is a sequence of such calls: \<^verbatim>\<open>add\<close>, a tick of
  the timer, an explicit \<^verbatim>\<open>flush\<close>, \<^verbatim>\<open>clear\<close>, the settling of the \<open>i\<close>-th pending
  sender promise, and a change of the storage from outside the queue. The timer is its
  callback, which the page may run at any time (so \<^verbatim>\<open>destroy\<close>, which only stops the
  timer, removes behaviours and adds none); the unload hook sends a beacon and touches
  no field.
\<close>

datatype action =
    Add Event
  | TimerTick
  | ManualFlush
  | Clear
  | Settle nat "error + unit"
  | StorageChange "(string \<times> stored) list" bool bool

definition settle :: "nat \<Rightarrow> error + unit \<Rightarrow> queue \<Rightarrow> promise \<times> queue" where
  "settle i outcome q =
     (if i < length (awaiting q)
      then EventQueue_flush_resume (awaiting q ! i) outcome
             (q\<lparr>awaiting := take i (awaiting q) @ drop (Suc i) (awaiting q)\<rparr>)
      else (Pending, q))"

fun exec :: "action \<Rightarrow> queue \<Rightarrow> queue" where
  "exec (Add event) q = snd (EventQueue_add event q)"
| "exec TimerTick q = timer_callback q"
| "exec ManualFlush q = snd (EventQueue_flush q)"
| "exec Clear q = snd (EventQueue_clear q)"
| "exec (Settle i outcome) q = snd (settle i outcome q)"
| "exec (StorageChange its a f) q =
     q\<lparr>window := (window q)\<lparr>items := its, accessible := a, quotaExceeded := f\<rparr>\<rparr>"

definition run :: "action list \<Rightarrow> queue \<Rightarrow> queue" where
  "run acts q = foldl (\<lambda>q a. exec a q) q acts"

section \<open>Example states\<close>

text \<open>
  A page with working, empty storage; the queue the constructor builds in it; and an
  event with a name, as the tests of the repository make them.
\<close>

definition empty_page :: browser where
  "empty_page = \<lparr>items = [], accessible = True, quotaExceeded = False, console = []\<rparr>"

definition fresh_queue :: "int \<Rightarrow> queue" where
  "fresh_queue bs =
     \<lparr>events = [], isProcessing = False, batchSize = bs, flushInterval = 10000,
      storage = ''analytics_queue_'', window = empty_page,
      onFlush_calls = [], awaiting = []\<rparr>"

definition ev :: "string \<Rightarrow> Event" where
  "ev n = JObj [(''name'', JStr n)]"

text \<open>
  A page where another key lives beside the queue's persisted events; the same page with
  storage denied; with no room left; and a page whose cell does not parse.
\<close>

definition stored_page :: browser where
  "stored_page =
     \<lparr>items = [(''analytics_user'', Stringified (JStr ''u1'')),
               (''analytics_queue_events'', Stringified (JArr [ev ''e1'', ev ''e2'']))],
      accessible = True, quotaExceeded = False, console = []\<rparr>"

definition denied_page :: browser where
  "denied_page = stored_page\<lparr>accessible := False\<rparr>"

definition full_page :: browser where
  "full_page = stored_page\<lparr>quotaExceeded := True\<rparr>"

definition garbled_page :: browser where
  "garbled_page =
     \<lparr>items = [(''analytics_queue_events'', NotJson ''[{'')],
      accessible = True, quotaExceeded = False, console = []\<rparr>"

text \<open>
  Queues reached from a fresh one: two events pending with a large threshold; one event
  pending below a threshold of two; the threshold of two just reached, so that the batch
  is with the sender; one more event added meanwhile; and that delivery settled.
\<close>

definition two_pending :: queue where
  "two_pending = run [Add (ev ''e1''), Add (ev ''e2'')] (fresh_queue 10)"

definition one_pending :: queue where
  "one_pending = run [Add (ev ''e1'')] (fresh_queue 2)"

definition in_flight :: queue where
  "in_flight = run [Add (ev ''e1''), Add (ev ''e2'')] (fresh_queue 2)"

definition held_back :: queue where
  "held_back = run [Add (ev ''e3'')] in_flight"

definition settled_with_one :: queue where
  "settled_with_one = run [Settle 0 (Inr ())] held_back"

text \<open>The queue the constructor builds in the page that holds two persisted events.\<close>

definition restored_queue :: queue where
  "restored_queue = (fresh_queue 10)\<lparr>events := [ev ''e1'', ev ''e2''], window := stored_page\<rparr>"

section \<open>The guard\<close>

text \<open>
  What the processing flag is meant to maintain: the flag is set exactly while one
  sender promise is pending, and no second one ever is.
\<close>

definition one_in_flight :: "queue \<Rightarrow> bool" where
  "one_in_flight q = (if isProcessing q then length (awaiting q) = 1 else awaiting q = [])"

section \<open>What each method does, as equations\<close>

lemma Storage_set_eq:
  "Storage_set p k v w =
     (if accessible w \<and> \<not> quotaExceeded w
      then (Inr True, w\<lparr>items := AList.update (p @ k) (Stringified v) (items w)\<rparr>)
      else (Inr False, console_error ''Storage set error:''
              (Error (if accessible w then ''QuotaExceededError'' else ''SecurityError'')) w))"
  by (simp add: Storage_set_def localStorage_setItem_def JSON_stringify_def)

lemma Storage_get_eq:
  "Storage_get p k w =
     (if \<not> accessible w
      then (Inr JNull, console_error ''Storage get error:'' (Error ''SecurityError'') w)
      else (case map_of (items w) (p @ k) of
              None \<Rightarrow> (Inr JNull, w)
            | Some (Stringified v) \<Rightarrow> (Inr v, w)
            | Some (NotJson s) \<Rightarrow>
                (if s = [] then (Inr JNull, w)
                 else (Inr JNull, console_error ''Storage get error:'' (Error ''SyntaxError'') w))))"
  by (simp add: Storage_get_def localStorage_getItem_def split: option.split stored.split)

lemma forEach_remove_accessible:
  "accessible w \<Longrightarrow>
   forEach_remove p keys w =
     (Inr (), w\<lparr>items := filter (\<lambda>kv. \<not> (fst kv \<in> set keys \<and> startsWith (fst kv) p)) (items w)\<rparr>)"
proof (induction keys arbitrary: w)
  case Nil
  then show ?case by simp
next
  case (Cons key keys)
  show ?case
  proof (cases "startsWith key p")
    case True
    have "forEach_remove p (key # keys) w = forEach_remove p keys (w\<lparr>items := AList.delete key (items w)\<rparr>)"
      using True Cons.prems by (simp add: localStorage_removeItem_def)
    also have "\<dots> = (Inr (), w\<lparr>items := filter (\<lambda>kv. \<not> (fst kv \<in> set keys \<and> startsWith (fst kv) p))
                                  (AList.delete key (items w))\<rparr>)"
      using Cons.prems by (simp add: Cons.IH)
    also have "filter (\<lambda>kv. \<not> (fst kv \<in> set keys \<and> startsWith (fst kv) p)) (AList.delete key (items w))
               = filter (\<lambda>kv. \<not> (fst kv \<in> set (key # keys) \<and> startsWith (fst kv) p)) (items w)"
      using True by (auto simp add: AList.delete_eq intro!: filter_cong)
    finally show ?thesis .
  next
    case False
    have "filter (\<lambda>kv. \<not> (fst kv \<in> set keys \<and> startsWith (fst kv) p)) (items w)
          = filter (\<lambda>kv. \<not> (fst kv \<in> set (key # keys) \<and> startsWith (fst kv) p)) (items w)"
      using False by (auto intro!: filter_cong)
    then show ?thesis using False Cons.prems by (simp add: Cons.IH)
  qed
qed

lemma Storage_clear_eq:
  "Storage_clear p w =
     (if accessible w
      then (Inr True, w\<lparr>items := filter (\<lambda>kv. \<not> startsWith (fst kv) p) (items w)\<rparr>)
      else (Inr False, console_error ''Storage clear error:'' (Error ''SecurityError'') w))"
proof (cases "accessible w")
  case True
  have "filter (\<lambda>kv. \<not> (fst kv \<in> set (map fst (items w)) \<and> startsWith (fst kv) p)) (items w)
        = filter (\<lambda>kv. \<not> startsWith (fst kv) p) (items w)"
    by (auto intro!: filter_cong)
  then show ?thesis
    using True by (simp add: Storage_clear_def Object_keys_localStorage_def forEach_remove_accessible)
next
  case False
  then show ?thesis by (simp add: Storage_clear_def Object_keys_localStorage_def)
qed

lemma Storage_clear_never_throws: "\<exists>ok. fst (Storage_clear p w) = Inr ok"
  by (auto simp add: Storage_clear_def split: sum.split prod.split)

lemma map_of_filter_prefix:
  "startsWith k p \<Longrightarrow> map_of (filter (\<lambda>kv. \<not> startsWith (fst kv) p) xs) k = None"
  by (induction xs) auto

lemma startsWith_append: "startsWith (p @ k) p"
  by (simp add: startsWith_def)

lemma get_after_clear: "fst (Storage_get p k (snd (Storage_clear p w))) = Inr JNull"
  by (simp add: Storage_get_eq Storage_clear_eq console_error_def map_of_filter_prefix startsWith_append)

lemma persistEvents_eq:
  "persistEvents q =
     (Inr (), q\<lparr>window := snd (Storage_set (storage q) ''events'' (JArr (events q)) (window q))\<rparr>)"
  by (simp add: persistEvents_def Storage_set_eq)

lemma flush_noop: "events q = [] \<or> isProcessing q \<Longrightarrow> EventQueue_flush q = (Fulfilled, q)"
  by (auto simp add: EventQueue_flush_def)

lemma flush_idle:
  "\<not> isProcessing q \<Longrightarrow> events q \<noteq> [] \<Longrightarrow>
   EventQueue_flush q =
     (Pending, q\<lparr>isProcessing := True, events := [],
                 window := snd (Storage_set (storage q) ''events'' (JArr []) (window q)),
                 onFlush_calls := onFlush_calls q @ [events q],
                 awaiting := awaiting q @ [events q]\<rparr>)"
  by (simp add: EventQueue_flush_def persistEvents_eq Let_def)

lemma add_eq:
  "EventQueue_add e q =
     (Inr (), (if batchSize q \<le> int (length (events q)) + 1
               then snd (EventQueue_flush (snd (persistEvents (q\<lparr>events := events q @ [e]\<rparr>))))
               else snd (persistEvents (q\<lparr>events := events q @ [e]\<rparr>))))"
  by (simp add: EventQueue_add_def persistEvents_eq Let_def)

lemma add_processing:
  "isProcessing q \<Longrightarrow>
   EventQueue_add e q =
     (Inr (), q\<lparr>events := events q @ [e],
                window := snd (Storage_set (storage q) ''events'' (JArr (events q @ [e])) (window q))\<rparr>)"
  by (simp add: add_eq persistEvents_eq flush_noop)

lemma add_below:
  "int (length (events q)) + 1 < batchSize q \<Longrightarrow>
   EventQueue_add e q =
     (Inr (), q\<lparr>events := events q @ [e],
                window := snd (Storage_set (storage q) ''events'' (JArr (events q @ [e])) (window q))\<rparr>)"
  by (simp add: add_eq persistEvents_eq)

lemma add_trigger:
  "\<not> isProcessing q \<Longrightarrow> batchSize q \<le> int (length (events q)) + 1 \<Longrightarrow>
   EventQueue_add e q =
     (Inr (), q\<lparr>isProcessing := True, events := [],
                window := snd (Storage_set (storage q) ''events'' (JArr [])
                   (snd (Storage_set (storage q) ''events'' (JArr (events q @ [e])) (window q)))),
                onFlush_calls := onFlush_calls q @ [events q @ [e]],
                awaiting := awaiting q @ [events q @ [e]]\<rparr>)"
  by (simp add: add_eq persistEvents_eq flush_idle)

lemma resume_ok:
  "EventQueue_flush_resume b (Inr u) q = (Fulfilled, q\<lparr>isProcessing := False\<rparr>)"
  by (simp add: EventQueue_flush_resume_def)

lemma resume_failed:
  "EventQueue_flush_resume b (Inl err) q =
     (Fulfilled, q\<lparr>isProcessing := False, events := b @ events q,
        window := snd (Storage_set (storage q) ''events'' (JArr (b @ events q))
                    (console_error ''Failed to flush events:'' err (window q)))\<rparr>)"
  by (simp add: EventQueue_flush_resume_def persistEvents_eq Let_def)

lemma clear_eq:
  "EventQueue_clear q =
     (Inr (), q\<lparr>events := [], window := snd (Storage_clear (storage q) (window q))\<rparr>)"
  by (simp add: EventQueue_clear_def Storage_clear_eq Let_def)

lemma load_eq:
  "loadPersistedEvents q =
     (Inr (), (case fst (Storage_get (storage q) ''events'' (window q)) of
                 Inr (JArr xs) \<Rightarrow> q\<lparr>window := snd (Storage_get (storage q) ''events'' (window q)), events := xs\<rparr>
               | _ \<Rightarrow> q\<lparr>window := snd (Storage_get (storage q) ''events'' (window q))\<rparr>))"
  by (simp add: loadPersistedEvents_def Storage_get_eq split: option.split stored.split json.split)

lemma new_eq:
  "EventQueue_new bs fi w =
     Inr (case fst (Storage_get ''analytics_queue_'' ''events'' w) of
            Inr (JArr xs) \<Rightarrow>
              \<lparr>events = xs, isProcessing = False, batchSize = bs, flushInterval = fi,
               storage = ''analytics_queue_'',
               window = snd (Storage_get ''analytics_queue_'' ''events'' w),
               onFlush_calls = [], awaiting = []\<rparr>
          | _ \<Rightarrow>
              \<lparr>events = [], isProcessing = False, batchSize = bs, flushInterval = fi,
               storage = ''analytics_queue_'',
               window = snd (Storage_get ''analytics_queue_'' ''events'' w),
               onFlush_calls = [], awaiting = []\<rparr>)"
  by (simp add: EventQueue_new_def load_eq Let_def split: sum.split json.split)

lemma settle_eq:
  "i < length (awaiting q) \<Longrightarrow>
   settle i outcome q =
     (Fulfilled,
      (case outcome of
         Inr u \<Rightarrow> q\<lparr>awaiting := take i (awaiting q) @ drop (Suc i) (awaiting q),
                     isProcessing := False\<rparr>
       | Inl err \<Rightarrow>
           q\<lparr>awaiting := take i (awaiting q) @ drop (Suc i) (awaiting q),
             isProcessing := False,
             events := awaiting q ! i @ events q,
             window := snd (Storage_set (storage q) ''events'' (JArr (awaiting q ! i @ events q))
                         (console_error ''Failed to flush events:'' err (window q)))\<rparr>))"
  by (simp add: settle_def resume_ok resume_failed split: sum.split)

lemma settle_out_of_range: "\<not> i < length (awaiting q) \<Longrightarrow> settle i outcome q = (Pending, q)"
  by (simp add: settle_def)

lemma get_after_set:
  "accessible w \<Longrightarrow> \<not> quotaExceeded w \<Longrightarrow>
   fst (Storage_get p k (snd (Storage_set p k v w))) = Inr v"
  by (simp add: Storage_get_eq Storage_set_eq update_conv')

lemma settle_last_failed:
  assumes "awaiting q = pend @ [b]"
  shows "fst (settle (length pend) (Inl err) q) = Fulfilled \<and>
         events (snd (settle (length pend) (Inl err) q)) = b @ events q \<and>
         \<not> isProcessing (snd (settle (length pend) (Inl err) q)) \<and>
         awaiting (snd (settle (length pend) (Inl err) q)) = pend \<and>
         onFlush_calls (snd (settle (length pend) (Inl err) q)) = onFlush_calls q \<and>
         batchSize (snd (settle (length pend) (Inl err) q)) = batchSize q \<and>
         storage (snd (settle (length pend) (Inl err) q)) = storage q \<and>
         window (snd (settle (length pend) (Inl err) q)) =
           snd (Storage_set (storage q) ''events'' (JArr (b @ events q))
                  (console_error ''Failed to flush events:'' err (window q)))"
proof -
  have "length pend < length (awaiting q)" using assms by simp
  from settle_eq [OF this, of "Inl err"] show ?thesis
    using assms by simp
qed

lemma settle_last_ok:
  assumes "awaiting q = pend @ [b]"
  shows "fst (settle (length pend) (Inr u) q) = Fulfilled \<and>
         events (snd (settle (length pend) (Inr u) q)) = events q \<and>
         \<not> isProcessing (snd (settle (length pend) (Inr u) q)) \<and>
         awaiting (snd (settle (length pend) (Inr u) q)) = pend \<and>
         onFlush_calls (snd (settle (length pend) (Inr u) q)) = onFlush_calls q \<and>
         batchSize (snd (settle (length pend) (Inr u) q)) = batchSize q \<and>
         storage (snd (settle (length pend) (Inr u) q)) = storage q \<and>
         window (snd (settle (length pend) (Inr u) q)) = window q"
proof -
  have "length pend < length (awaiting q)" using assms by simp
  from settle_eq [OF this, of "Inr u"] show ?thesis
    using assms by simp
qed

section \<open>Sequences of calls\<close>

lemma run_Nil: "run [] q = q"
  by (simp add: run_def)

lemma run_Cons: "run (a # acts) q = run acts (exec a q)"
  by (simp add: run_def)

lemma run_snoc: "run (xs @ [a]) q = exec a (run xs q)"
  by (simp add: run_def)

lemma run_adds_processing:
  "isProcessing q \<Longrightarrow>
   events (run (map Add es) q) = events q @ es \<and>
   isProcessing (run (map Add es) q) \<and>
   onFlush_calls (run (map Add es) q) = onFlush_calls q \<and>
   awaiting (run (map Add es) q) = awaiting q \<and>
   batchSize (run (map Add es) q) = batchSize q \<and>
   storage (run (map Add es) q) = storage q"
proof (induction es arbitrary: q)
  case Nil
  then show ?case by (simp add: run_Nil)
next
  case (Cons e es)
  let ?q = "exec (Add e) q"
  have "isProcessing ?q" and "events ?q = events q @ [e]" and "onFlush_calls ?q = onFlush_calls q"
    and "awaiting ?q = awaiting q" and "batchSize ?q = batchSize q" and "storage ?q = storage q"
    using Cons.prems by (simp_all add: add_processing)
  then show ?case
    using Cons.IH [of ?q] by (simp add: run_Cons)
qed

lemma run_adds_below:
  "int (length (events q) + length es) < batchSize q \<Longrightarrow>
   events (run (map Add es) q) = events q @ es \<and>
   isProcessing (run (map Add es) q) = isProcessing q \<and>
   onFlush_calls (run (map Add es) q) = onFlush_calls q \<and>
   awaiting (run (map Add es) q) = awaiting q \<and>
   batchSize (run (map Add es) q) = batchSize q \<and>
   storage (run (map Add es) q) = storage q"
proof (induction es arbitrary: q)
  case Nil
  then show ?case by (simp add: run_Nil)
next
  case (Cons e es)
  let ?q = "exec (Add e) q"
  have "isProcessing ?q = isProcessing q" and ev: "events ?q = events q @ [e]"
    and "onFlush_calls ?q = onFlush_calls q"
    and "awaiting ?q = awaiting q" and bs: "batchSize ?q = batchSize q" and "storage ?q = storage q"
    using Cons.prems by (simp_all add: add_eq persistEvents_eq)
  moreover have "int (length (events ?q) + length es) < batchSize ?q"
    using Cons.prems ev bs by simp
  ultimately show ?case
    using Cons.IH [of ?q] by (simp add: run_Cons)
qed

lemma exec_while_processing:
  "isProcessing q \<Longrightarrow> \<forall>i r. a \<noteq> Settle i r \<Longrightarrow>
   isProcessing (exec a q) \<and> onFlush_calls (exec a q) = onFlush_calls q"
  by (cases a) (simp_all add: add_processing timer_callback_def flush_noop clear_eq)

lemma run_while_processing:
  "isProcessing q \<Longrightarrow> \<forall>a \<in> set acts. \<forall>i r. a \<noteq> Settle i r \<Longrightarrow>
   isProcessing (run acts q) \<and> onFlush_calls (run acts q) = onFlush_calls q"
proof (induction acts arbitrary: q)
  case Nil
  then show ?case by (simp add: run_Nil)
next
  case (Cons a acts)
  have "isProcessing (exec a q) \<and> onFlush_calls (exec a q) = onFlush_calls q"
    using Cons.prems by (intro exec_while_processing) simp_all
  then show ?case
    using Cons.IH [of "exec a q"] Cons.prems(2) by (simp add: run_Cons)
qed

lemma settle_keeps_calls: "onFlush_calls (snd (settle i r q)) = onFlush_calls q"
proof (cases "i < length (awaiting q)")
  case True
  show ?thesis unfolding settle_eq [OF True] by (cases r) simp_all
next
  case False
  then show ?thesis by (simp add: settle_out_of_range)
qed

lemma sender_called_only_by_flush_when_idle:
  assumes ch: "onFlush_calls (exec a q) \<noteq> onFlush_calls q"
  shows "\<not> isProcessing q \<and> (a = TimerTick \<or> a = ManualFlush \<or> (\<exists>e. a = Add e))"
proof -
  have kind: "a = TimerTick \<or> a = ManualFlush \<or> (\<exists>e. a = Add e)"
  proof (cases a)
    case Clear
    with ch show ?thesis by (simp add: clear_eq)
  next
    case (Settle i r)
    with ch show ?thesis by (simp add: settle_keeps_calls)
  next
    case (StorageChange its acc f)
    with ch show ?thesis by simp
  qed simp_all
  then have "\<forall>i r. a \<noteq> Settle i r" by auto
  with exec_while_processing [of q a] ch have "\<not> isProcessing q" by blast
  with kind show ?thesis by simp
qed

lemma flushes_while_processing:
  "isProcessing q \<Longrightarrow> set fs \<subseteq> {TimerTick, ManualFlush} \<Longrightarrow> run fs q = q"
proof (induction fs)
  case Nil
  then show ?case by (simp add: run_Nil)
next
  case (Cons a fs)
  then have "a = TimerTick \<or> a = ManualFlush" by simp
  then have "exec a q = q"
    using Cons.prems(1) by (auto simp add: timer_callback_def flush_noop)
  then show ?case using Cons by (simp add: run_Cons)
qed

section \<open>The guard is an invariant\<close>

lemma one_in_flight_flush: "one_in_flight q \<Longrightarrow> one_in_flight (snd (EventQueue_flush q))"
proof (cases "events q = [] \<or> isProcessing q")
  case True
  assume "one_in_flight q"
  then show ?thesis using flush_noop [OF True] by simp
next
  case False
  assume "one_in_flight q"
  with False show ?thesis
    by (simp add: flush_idle one_in_flight_def)
qed

lemma one_in_flight_exec: "one_in_flight q \<Longrightarrow> one_in_flight (exec a q)"
proof (cases a)
  case (Add e)
  assume inv: "one_in_flight q"
  from one_in_flight_flush [of "snd (persistEvents (q\<lparr>events := events q @ [e]\<rparr>))"] inv
  show ?thesis
    by (simp add: Add add_eq persistEvents_eq one_in_flight_def)
next
  case TimerTick
  assume "one_in_flight q"
  then show ?thesis
    using one_in_flight_flush [of q] by (simp add: TimerTick timer_callback_def)
next
  case ManualFlush
  assume "one_in_flight q"
  then show ?thesis
    using one_in_flight_flush [of q] by (simp add: ManualFlush)
next
  case Clear
  assume "one_in_flight q"
  then show ?thesis
    by (simp add: Clear clear_eq one_in_flight_def)
next
  case (Settle i outcome)
  assume inv: "one_in_flight q"
  show ?thesis
  proof (cases "i < length (awaiting q)")
    case True
    with inv have "isProcessing q" "length (awaiting q) = 1" "i = 0"
      by (auto simp add: one_in_flight_def split: if_splits)
    then show ?thesis
      using settle_eq [OF True, of outcome]
      by (cases outcome) (simp_all add: Settle one_in_flight_def)
  next
    case False
    then show ?thesis using inv by (simp add: Settle settle_out_of_range)
  qed
next
  case (StorageChange its a f)
  assume "one_in_flight q"
  then show ?thesis by (simp add: StorageChange one_in_flight_def)
qed

lemma one_in_flight_run: "one_in_flight q \<Longrightarrow> one_in_flight (run acts q)"
  by (induction acts arbitrary: q) (simp_all add: run_Nil run_Cons one_in_flight_exec)

lemma one_in_flight_new: "EventQueue_new bs fi w = Inr q0 \<Longrightarrow> one_in_flight q0"
  by (auto simp add: new_eq one_in_flight_def split: sum.splits json.splits)

section \<open>The example states, evaluated\<close>

lemmas evaluate =
  run_def fresh_queue_def empty_page_def EventQueue_add_def persistEvents_def
  Storage_set_def localStorage_setItem_def JSON_stringify_def EventQueue_flush_def
  settle_def EventQueue_flush_resume_def console_error_def timer_callback_def
  EventQueue_clear_def Storage_clear_def Object_keys_localStorage_def
  localStorage_removeItem_def startsWith_def Storage_get_def localStorage_getItem_def
  EventQueue_size_def Let_def

lemma in_flight_fields:
  "isProcessing in_flight" "events in_flight = []" "awaiting in_flight = [[ev ''e1'', ev ''e2'']]"
  "onFlush_calls in_flight = [[ev ''e1'', ev ''e2'']]" "batchSize in_flight = 2"
  "storage in_flight = ''analytics_queue_''"
  "accessible (window in_flight)" "\<not> quotaExceeded (window in_flight)"
  by (simp_all add: in_flight_def evaluate)

lemma two_pending_fields:
  "\<not> isProcessing two_pending" "events two_pending = [ev ''e1'', ev ''e2'']"
  "awaiting two_pending = []" "onFlush_calls two_pending = []"
  by (simp_all add: two_pending_def evaluate)

lemma one_pending_fields:
  "\<not> isProcessing one_pending" "events one_pending = [ev ''e1'']"
  "onFlush_calls one_pending = []"
  by (simp_all add: one_pending_def evaluate)

lemma settled_with_one_fields:
  "\<not> isProcessing settled_with_one" "events settled_with_one = [ev ''e3'']"
  "onFlush_calls settled_with_one = [[ev ''e1'', ev ''e2'']]" "batchSize settled_with_one = 2"
  by (simp_all add: settled_with_one_def held_back_def in_flight_def evaluate)

lemma held_back_fields:
  "isProcessing held_back" "events held_back = [ev ''e3'']"
  by (simp_all add: held_back_def in_flight_def evaluate)

lemma new_in_stored_page: "EventQueue_new 10 10000 stored_page = Inr restored_queue"
  by (simp add: new_eq Storage_get_eq stored_page_def restored_queue_def fresh_queue_def)

lemma new_in_empty_page: "EventQueue_new bs 10000 empty_page = Inr (fresh_queue bs)"
  by (simp add: new_eq Storage_get_eq empty_page_def fresh_queue_def)

section \<open>The claims\<close>

text \<open>
  C1. For every idle queue with a non-empty pending sequence: \<^verbatim>\<open>flush\<close> hands the whole
  sequence to the sender; whatever events \<open>es\<close> are added while the sender works do not
  reach it; when the sender then fails, the batch is put back at the head of the pending
  sequence, in its order, before \<open>es\<close>, so that \<^verbatim>\<open>size()\<close> is the size of the batch plus
  the number of later adds; the next \<^verbatim>\<open>flush\<close> calls the sender with the batch followed
  by \<open>es\<close>, and when that one succeeds nothing is put back. In general, a failed attempt
  with batch \<open>b\<close> settling in any state \<open>q'\<close> leaves \<open>b\<close> followed by the events of \<open>q'\<close>.
\<close>

theorem failed_batch_is_requeued_in_order:
  assumes idle: "\<not> isProcessing q" and nonempty: "events q \<noteq> []"
  shows "(let q1 = snd (EventQueue_flush q);
              q2 = run (map Add es) q1;
              q3 = snd (settle (length (awaiting q)) (Inl err) q2);
              q4 = snd (EventQueue_flush q3);
              q5 = snd (settle (length (awaiting q)) (Inr ()) q4)
          in onFlush_calls q1 = onFlush_calls q @ [events q] \<and>
             awaiting q1 = awaiting q @ [events q] \<and>
             onFlush_calls q2 = onFlush_calls q1 \<and>
             events q2 = es \<and>
             events q3 = events q @ es \<and>
             EventQueue_size q3 = length (events q) + length es \<and>
             \<not> isProcessing q3 \<and>
             onFlush_calls q3 = onFlush_calls q1 \<and>
             awaiting q3 = awaiting q \<and>
             onFlush_calls q4 = onFlush_calls q @ [events q, events q @ es] \<and>
             awaiting q4 = awaiting q @ [events q @ es] \<and>
             events q5 = [] \<and>
             \<not> isProcessing q5 \<and>
             awaiting q5 = awaiting q \<and>
             onFlush_calls q5 = onFlush_calls q4) \<and>
         events (snd (EventQueue_flush_resume b (Inl err) q')) = b @ events q'"
proof -
  define q1 where "q1 = snd (EventQueue_flush q)"
  define q2 where "q2 = run (map Add es) q1"
  define q3 where "q3 = snd (settle (length (awaiting q)) (Inl err) q2)"
  define q4 where "q4 = snd (EventQueue_flush q3)"
  define q5 where "q5 = snd (settle (length (awaiting q)) (Inr ()) q4)"
  have 1: "onFlush_calls q1 = onFlush_calls q @ [events q]" "awaiting q1 = awaiting q @ [events q]"
    "isProcessing q1" "events q1 = []"
    unfolding q1_def flush_idle [OF idle nonempty] by simp_all
  have 2: "events q2 = es" "isProcessing q2" "onFlush_calls q2 = onFlush_calls q1"
    "awaiting q2 = awaiting q @ [events q]"
    unfolding q2_def using run_adds_processing [OF 1(3), of es] 1 by simp_all
  have 3: "events q3 = events q @ es" "\<not> isProcessing q3" "onFlush_calls q3 = onFlush_calls q1"
    "awaiting q3 = awaiting q"
    unfolding q3_def using settle_last_failed [OF 2(4), of err] 2 by simp_all
  have ne3: "events q3 \<noteq> []" using 3(1) nonempty by simp
  have 4: "onFlush_calls q4 = onFlush_calls q @ [events q, events q @ es]"
    "awaiting q4 = awaiting q @ [events q @ es]" "events q4 = []"
    unfolding q4_def flush_idle [OF 3(2) ne3] using 3 1 by simp_all
  have 5: "events q5 = []" "\<not> isProcessing q5" "awaiting q5 = awaiting q"
    "onFlush_calls q5 = onFlush_calls q4"
    unfolding q5_def using settle_last_ok [OF 4(2), of "()"] 4 by simp_all
  have r: "events (snd (EventQueue_flush_resume b (Inl err) q')) = b @ events q'"
    by (simp add: resume_failed)
  have "onFlush_calls q1 = onFlush_calls q @ [events q] \<and>
             awaiting q1 = awaiting q @ [events q] \<and>
             onFlush_calls q2 = onFlush_calls q1 \<and>
             events q2 = es \<and>
             events q3 = events q @ es \<and>
             EventQueue_size q3 = length (events q) + length es \<and>
             \<not> isProcessing q3 \<and>
             onFlush_calls q3 = onFlush_calls q1 \<and>
             awaiting q3 = awaiting q \<and>
             onFlush_calls q4 = onFlush_calls q @ [events q, events q @ es] \<and>
             awaiting q4 = awaiting q @ [events q @ es] \<and>
             events q5 = [] \<and>
             \<not> isProcessing q5 \<and>
             awaiting q5 = awaiting q \<and>
             onFlush_calls q5 = onFlush_calls q4"
    using 1 2 3 4 5 by (simp add: EventQueue_size_def)
  then show ?thesis
    unfolding Let_def q1_def q2_def q3_def q4_def q5_def using r by blast
qed

theorem failed_batch_is_requeued_in_order_witness:
  "\<not> isProcessing two_pending \<and> events two_pending \<noteq> [] \<and>
   events (snd (settle 0 (Inl (Error ''Network error''))
      (run (map Add [ev ''e3'']) (snd (EventQueue_flush two_pending)))))
     = [ev ''e1'', ev ''e2'', ev ''e3''] \<and>
   EventQueue_size (snd (settle 0 (Inl (Error ''Network error''))
      (run (map Add [ev ''e3'']) (snd (EventQueue_flush two_pending))))) = 3 \<and>
   onFlush_calls (snd (EventQueue_flush (snd (settle 0 (Inl (Error ''Network error''))
      (run (map Add [ev ''e3'']) (snd (EventQueue_flush two_pending)))))))
     = [[ev ''e1'', ev ''e2''], [ev ''e1'', ev ''e2'', ev ''e3'']]"
proof -
  have h1: "\<not> isProcessing two_pending" and h2: "events two_pending \<noteq> []"
    by (simp_all add: two_pending_fields)
  from failed_batch_is_requeued_in_order [OF h1 h2, of "[ev ''e3'']" "Error ''Network error''"]
  show ?thesis
    using h1 h2 by (simp add: Let_def two_pending_fields)
qed

text \<open>
  C2. For every event and every queue state, \<^verbatim>\<open>add(event)\<close> returns normally. It appends
  the event to the pending sequence and hands the whole sequence to \<^verbatim>\<open>Storage.set\<close> under
  the key \<^verbatim>\<open>events\<close> (when the storage takes the write, reading the key back gives that
  sequence); then it calls \<^verbatim>\<open>flush\<close> exactly when the size is at least \<^verbatim>\<open>batchSize\<close>.
  It does not wait for the sender: when the flush it triggers finds the queue idle, the
  sender has been called with the whole sequence, its promise is still pending and the
  pending sequence is empty; otherwise no sender call is made and the event stays pending.
\<close>

theorem add_appends_persists_and_triggers:
  "fst (EventQueue_add e q) = Inr () \<and>
   (\<exists>q1. persistEvents (q\<lparr>events := events q @ [e]\<rparr>) = (Inr (), q1) \<and>
      events q1 = events q @ [e] \<and>
      window q1 = snd (Storage_set (storage q) ''events'' (JArr (events q @ [e])) (window q)) \<and>
      (accessible (window q) \<and> \<not> quotaExceeded (window q) \<longrightarrow>
         fst (Storage_get (storage q) ''events'' (window q1)) = Inr (JArr (events q @ [e]))) \<and>
      snd (EventQueue_add e q) =
        (if batchSize q \<le> int (length (events q1)) then snd (EventQueue_flush q1) else q1)) \<and>
   onFlush_calls (snd (EventQueue_add e q)) =
     (if batchSize q \<le> int (length (events q)) + 1 \<and> \<not> isProcessing q
      then onFlush_calls q @ [events q @ [e]] else onFlush_calls q) \<and>
   awaiting (snd (EventQueue_add e q)) =
     (if batchSize q \<le> int (length (events q)) + 1 \<and> \<not> isProcessing q
      then awaiting q @ [events q @ [e]] else awaiting q) \<and>
   events (snd (EventQueue_add e q)) =
     (if batchSize q \<le> int (length (events q)) + 1 \<and> \<not> isProcessing q
      then [] else events q @ [e])"
proof -
  let ?q1 = "q\<lparr>events := events q @ [e],
               window := snd (Storage_set (storage q) ''events'' (JArr (events q @ [e])) (window q))\<rparr>"
  have p: "persistEvents (q\<lparr>events := events q @ [e]\<rparr>) = (Inr (), ?q1)"
    by (simp add: persistEvents_eq)
  have g: "accessible (window q) \<and> \<not> quotaExceeded (window q) \<longrightarrow>
         fst (Storage_get (storage q) ''events'' (window ?q1)) = Inr (JArr (events q @ [e]))"
    by (simp add: get_after_set)
  have a: "snd (EventQueue_add e q) =
        (if batchSize q \<le> int (length (events ?q1)) then snd (EventQueue_flush ?q1) else ?q1)"
    by (simp add: add_eq p)
  have 1: "\<exists>q1. persistEvents (q\<lparr>events := events q @ [e]\<rparr>) = (Inr (), q1) \<and>
      events q1 = events q @ [e] \<and>
      window q1 = snd (Storage_set (storage q) ''events'' (JArr (events q @ [e])) (window q)) \<and>
      (accessible (window q) \<and> \<not> quotaExceeded (window q) \<longrightarrow>
         fst (Storage_get (storage q) ''events'' (window q1)) = Inr (JArr (events q @ [e]))) \<and>
      snd (EventQueue_add e q) =
        (if batchSize q \<le> int (length (events q1)) then snd (EventQueue_flush q1) else q1)"
    using p g a by (intro exI [of _ ?q1]) simp
  have 0: "fst (EventQueue_add e q) = Inr ()"
    by (simp add: add_eq)
  consider (busy) "isProcessing q"
    | (trigger) "\<not> isProcessing q" "batchSize q \<le> int (length (events q)) + 1"
    | (below) "\<not> isProcessing q" "\<not> batchSize q \<le> int (length (events q)) + 1"
    by blast
  then have 2: "onFlush_calls (snd (EventQueue_add e q)) =
     (if batchSize q \<le> int (length (events q)) + 1 \<and> \<not> isProcessing q
      then onFlush_calls q @ [events q @ [e]] else onFlush_calls q) \<and>
   awaiting (snd (EventQueue_add e q)) =
     (if batchSize q \<le> int (length (events q)) + 1 \<and> \<not> isProcessing q
      then awaiting q @ [events q @ [e]] else awaiting q) \<and>
   events (snd (EventQueue_add e q)) =
     (if batchSize q \<le> int (length (events q)) + 1 \<and> \<not> isProcessing q
      then [] else events q @ [e])"
  proof cases
    case busy
    then show ?thesis by (simp add: add_processing)
  next
    case trigger
    then show ?thesis by (simp add: add_trigger)
  next
    case below
    then show ?thesis by (simp add: add_below)
  qed
  show ?thesis
    using 0 1 2 by blast
qed

theorem add_appends_persists_and_triggers_witness:
  "accessible (window (fresh_queue 10)) \<and> \<not> quotaExceeded (window (fresh_queue 10)) \<and>
   events (snd (EventQueue_add (ev ''e1'') (fresh_queue 10))) = [ev ''e1''] \<and>
   onFlush_calls (snd (EventQueue_add (ev ''e1'') (fresh_queue 10))) = [] \<and>
   fst (Storage_get ''analytics_queue_'' ''events''
          (window (snd (EventQueue_add (ev ''e1'') (fresh_queue 10))))) = Inr (JArr [ev ''e1'']) \<and>
   onFlush_calls (snd (EventQueue_add (ev ''e1'') (fresh_queue 1))) = [[ev ''e1'']] \<and>
   events (snd (EventQueue_add (ev ''e1'') (fresh_queue 1))) = []"
proof -
  have acc: "accessible (window (fresh_queue 10)) \<and> \<not> quotaExceeded (window (fresh_queue 10))"
    by (simp add: fresh_queue_def empty_page_def)
  have f: "events (fresh_queue bs) = []" "onFlush_calls (fresh_queue bs) = []"
    "batchSize (fresh_queue bs) = bs" "\<not> isProcessing (fresh_queue bs)"
    "storage (fresh_queue bs) = ''analytics_queue_''" for bs
    by (simp_all add: fresh_queue_def)
  note t = add_appends_persists_and_triggers [of "ev ''e1''" "fresh_queue 10"]
  from t obtain q1 where
    g: "accessible (window (fresh_queue 10)) \<and> \<not> quotaExceeded (window (fresh_queue 10)) \<longrightarrow>
         fst (Storage_get (storage (fresh_queue 10)) ''events'' (window q1))
           = Inr (JArr (events (fresh_queue 10) @ [ev ''e1'']))"
    and e: "events q1 = events (fresh_queue 10) @ [ev ''e1'']"
    and a: "snd (EventQueue_add (ev ''e1'') (fresh_queue 10)) =
        (if batchSize (fresh_queue 10) \<le> int (length (events q1))
         then snd (EventQueue_flush q1) else q1)"
    by blast
  have a': "snd (EventQueue_add (ev ''e1'') (fresh_queue 10)) = q1"
    using a e by (simp add: f)
  have 1: "fst (Storage_get ''analytics_queue_'' ''events''
          (window (snd (EventQueue_add (ev ''e1'') (fresh_queue 10))))) = Inr (JArr [ev ''e1''])"
    using g acc by (simp add: a' f)
  have 2: "events (snd (EventQueue_add (ev ''e1'') (fresh_queue 10))) = [ev ''e1''] \<and>
           onFlush_calls (snd (EventQueue_add (ev ''e1'') (fresh_queue 10))) = []"
    using t by (simp add: f)
  have 3: "onFlush_calls (snd (EventQueue_add (ev ''e1'') (fresh_queue 1))) = [[ev ''e1'']] \<and>
           events (snd (EventQueue_add (ev ''e1'') (fresh_queue 1))) = []"
    using add_appends_persists_and_triggers [of "ev ''e1''" "fresh_queue 1"] by (simp add: f)
  show ?thesis
    using acc 1 2 3 by simp
qed

text \<open>
  C3. From an idle queue with fewer than \<^verbatim>\<open>batchSize\<close> pending events, adding events
  \<open>es\<close> until the count reaches \<^verbatim>\<open>batchSize\<close> calls the sender exactly once, with the
  pending events followed by \<open>es\<close> in insertion order (before the last add the sender is
  not called and \<^verbatim>\<open>size()\<close> counts the adds); right after the last add, with the sender's
  promise still pending, \<^verbatim>\<open>size()\<close> is 0.
\<close>

theorem reaching_batchSize_sends_once:
  assumes idle: "\<not> isProcessing q"
    and below: "int (length (events q)) < batchSize q"
    and reach: "int (length (events q) + length es) = batchSize q"
  shows "onFlush_calls (run (map Add es) q) = onFlush_calls q @ [events q @ es] \<and>
         EventQueue_size (run (map Add es) q) = 0 \<and>
         events (run (map Add es) q) = [] \<and>
         awaiting (run (map Add es) q) = awaiting q @ [events q @ es] \<and>
         isProcessing (run (map Add es) q) \<and>
         (\<forall>n < length es. onFlush_calls (run (map Add (take n es)) q) = onFlush_calls q \<and>
                           EventQueue_size (run (map Add (take n es)) q) = length (events q) + n)"
proof -
  from below reach have "es \<noteq> []" by auto
  then obtain es' e where es: "es = es' @ [e]"
    by (meson rev_exhaust)
  let ?q = "run (map Add es') q"
  have lt: "int (length (events q) + length es') < batchSize q"
    using reach es by simp
  note b = run_adds_below [OF lt]
  have idle': "\<not> isProcessing ?q" using b idle by simp
  have trig: "batchSize ?q \<le> int (length (events ?q)) + 1"
    using b reach es by simp
  have last: "run (map Add es) q = snd (EventQueue_add e ?q)"
    by (simp add: es run_snoc)
  have main: "onFlush_calls (run (map Add es) q) = onFlush_calls q @ [events q @ es] \<and>
         events (run (map Add es) q) = [] \<and>
         awaiting (run (map Add es) q) = awaiting q @ [events q @ es] \<and>
         isProcessing (run (map Add es) q)"
    unfolding last add_trigger [OF idle' trig] using b by (simp add: es)
  have pre: "onFlush_calls (run (map Add (take n es)) q) = onFlush_calls q \<and>
             EventQueue_size (run (map Add (take n es)) q) = length (events q) + n"
    if "n < length es" for n
  proof -
    have "int (length (events q) + length (take n es)) < batchSize q"
      using that reach by simp
    from run_adds_below [OF this] that show ?thesis
      by (simp add: EventQueue_size_def)
  qed
  show ?thesis
    using main pre by (simp add: EventQueue_size_def)
qed

theorem reaching_batchSize_sends_once_witness:
  "\<not> isProcessing (fresh_queue 2) \<and>
   int (length (events (fresh_queue 2))) < batchSize (fresh_queue 2) \<and>
   int (length (events (fresh_queue 2)) + length [ev ''e1'', ev ''e2'']) = batchSize (fresh_queue 2) \<and>
   onFlush_calls (run (map Add [ev ''e1'', ev ''e2'']) (fresh_queue 2)) = [[ev ''e1'', ev ''e2'']] \<and>
   EventQueue_size (run (map Add [ev ''e1'', ev ''e2'']) (fresh_queue 2)) = 0 \<and>
   onFlush_calls (run (map Add (take 1 [ev ''e1'', ev ''e2''])) (fresh_queue 2)) = [] \<and>
   EventQueue_size (run (map Add (take 1 [ev ''e1'', ev ''e2''])) (fresh_queue 2)) = 1"
proof -
  have h1: "\<not> isProcessing (fresh_queue 2)"
    and h2: "int (length (events (fresh_queue 2))) < batchSize (fresh_queue 2)"
    and h3: "int (length (events (fresh_queue 2)) + length [ev ''e1'', ev ''e2''])
               = batchSize (fresh_queue 2)"
    by (simp_all add: fresh_queue_def)
  have f: "events (fresh_queue 2) = []" "onFlush_calls (fresh_queue 2) = []"
    by (simp_all add: fresh_queue_def)
  note t = reaching_batchSize_sends_once [OF h1 h2 h3]
  have "(1::nat) < length [ev ''e1'', ev ''e2'']" by simp
  with t have "onFlush_calls (run (map Add (take 1 [ev ''e1'', ev ''e2''])) (fresh_queue 2))
                 = onFlush_calls (fresh_queue 2) \<and>
               EventQueue_size (run (map Add (take 1 [ev ''e1'', ev ''e2''])) (fresh_queue 2))
                 = length (events (fresh_queue 2)) + 1"
    by blast
  then show ?thesis
    using h1 h2 h3 t by (simp add: f)
qed

text \<open>
  C4. For every queue state, \<^verbatim>\<open>flush()\<close> called when the pending sequence is empty, or
  while the processing flag is set, is a no-op: the promise it returns is already
  fulfilled, the sender has not been called, no batch is awaited, and the pending
  sequence and the page (with everything persisted in it) are what they were.
\<close>

theorem flush_is_noop_when_empty_or_processing:
  assumes "events q = [] \<or> isProcessing q"
  shows "EventQueue_flush q = (Fulfilled, q) \<and>
         onFlush_calls (snd (EventQueue_flush q)) = onFlush_calls q \<and>
         awaiting (snd (EventQueue_flush q)) = awaiting q \<and>
         events (snd (EventQueue_flush q)) = events q \<and>
         window (snd (EventQueue_flush q)) = window q"
  using assms by (auto simp add: EventQueue_flush_def)

theorem flush_is_noop_when_empty_or_processing_witness:
  "events (fresh_queue 10) = [] \<and>
   EventQueue_flush (fresh_queue 10) = (Fulfilled, fresh_queue 10) \<and>
   isProcessing held_back \<and> events held_back \<noteq> [] \<and>
   EventQueue_flush held_back = (Fulfilled, held_back) \<and>
   onFlush_calls (snd (EventQueue_flush held_back)) = onFlush_calls held_back"
proof -
  have e: "events (fresh_queue 10) = [] \<or> isProcessing (fresh_queue 10)"
    by (simp add: fresh_queue_def)
  have b: "events held_back = [] \<or> isProcessing held_back"
    by (simp add: held_back_fields)
  show ?thesis
    using flush_is_noop_when_empty_or_processing [OF e]
      flush_is_noop_when_empty_or_processing [OF b]
    by (simp add: fresh_queue_def held_back_fields)
qed

text \<open>
  C5. After any sequence of calls on a constructed queue (adds, timer ticks, explicit
  flushes, clears, settlements, changes of the storage), at most one sender promise is
  pending, and one is pending exactly when the processing flag is set. While it is set,
  \<^verbatim>\<open>flush()\<close> and the timer's callback change nothing and \<^verbatim>\<open>flush()\<close> returns a fulfilled
  promise. From an idle queue with pending events, any non-empty sequence of timer ticks
  and explicit flushes makes exactly one sender call, with the pending events.
\<close>

theorem at_most_one_sender_call_in_flight:
  assumes new: "EventQueue_new bs fi w = Inr q0"
  shows "length (awaiting (run acts q0)) \<le> 1 \<and>
         (isProcessing (run acts q0) \<longleftrightarrow> awaiting (run acts q0) \<noteq> []) \<and>
         (isProcessing (run acts q0) \<longrightarrow>
            EventQueue_flush (run acts q0) = (Fulfilled, run acts q0) \<and>
            timer_callback (run acts q0) = run acts q0) \<and>
         (\<not> isProcessing (run acts q0) \<and> events (run acts q0) \<noteq> [] \<and>
          fs \<noteq> [] \<and> set fs \<subseteq> {TimerTick, ManualFlush} \<longrightarrow>
            onFlush_calls (run fs (run acts q0))
              = onFlush_calls (run acts q0) @ [events (run acts q0)] \<and>
            awaiting (run fs (run acts q0)) = [events (run acts q0)])"
proof -
  let ?q = "run acts q0"
  have inv: "one_in_flight ?q"
    using one_in_flight_new [OF new] by (rule one_in_flight_run)
  have a: "length (awaiting ?q) \<le> 1" and b: "isProcessing ?q \<longleftrightarrow> awaiting ?q \<noteq> []"
    using inv by (auto simp add: one_in_flight_def split: if_splits)
  have c: "EventQueue_flush ?q = (Fulfilled, ?q) \<and> timer_callback ?q = ?q" if "isProcessing ?q"
    using that by (simp add: flush_noop timer_callback_def)
  have d: "onFlush_calls (run fs ?q) = onFlush_calls ?q @ [events ?q] \<and>
           awaiting (run fs ?q) = [events ?q]"
    if idle: "\<not> isProcessing ?q" and ne: "events ?q \<noteq> []" and fs: "fs \<noteq> []"
      and sub: "set fs \<subseteq> {TimerTick, ManualFlush}"
  proof -
    obtain f fs' where f: "fs = f # fs'" using fs by (cases fs) auto
    have "f = TimerTick \<or> f = ManualFlush" using sub f by simp
    then have e: "exec f ?q = snd (EventQueue_flush ?q)"
      using ne by (auto simp add: timer_callback_def)
    have p: "isProcessing (exec f ?q)"
      unfolding e flush_idle [OF idle ne] by simp
    have "run fs ?q = exec f ?q"
      using flushes_while_processing [OF p, of fs'] sub f by (simp add: run_Cons)
    then show ?thesis
      unfolding e flush_idle [OF idle ne] using b idle by simp
  qed
  show ?thesis
    using a b c d by blast
qed

theorem at_most_one_sender_call_in_flight_witness:
  "EventQueue_new 2 10000 empty_page = Inr (fresh_queue 2) \<and>
   length (awaiting (run [Add (ev ''e1''), Add (ev ''e2'')] (fresh_queue 2))) \<le> 1 \<and>
   isProcessing (run [Add (ev ''e1''), Add (ev ''e2'')] (fresh_queue 2)) \<and>
   EventQueue_flush (run [Add (ev ''e1''), Add (ev ''e2'')] (fresh_queue 2))
     = (Fulfilled, run [Add (ev ''e1''), Add (ev ''e2'')] (fresh_queue 2)) \<and>
   \<not> isProcessing (run [Add (ev ''e1'')] (fresh_queue 2)) \<and>
   events (run [Add (ev ''e1'')] (fresh_queue 2)) \<noteq> [] \<and>
   onFlush_calls (run [ManualFlush, TimerTick, ManualFlush] (run [Add (ev ''e1'')] (fresh_queue 2)))
     = [[ev ''e1'']] \<and>
   awaiting (run [ManualFlush, TimerTick, ManualFlush] (run [Add (ev ''e1'')] (fresh_queue 2)))
     = [[ev ''e1'']]"
proof -
  have new: "EventQueue_new 2 10000 empty_page = Inr (fresh_queue 2)"
    by (rule new_in_empty_page)
  have busy: "isProcessing (run [Add (ev ''e1''), Add (ev ''e2'')] (fresh_queue 2))"
    using in_flight_fields(1) by (simp add: in_flight_def)
  have idle: "\<not> isProcessing (run [Add (ev ''e1'')] (fresh_queue 2))"
    and ne: "events (run [Add (ev ''e1'')] (fresh_queue 2)) \<noteq> []"
    and fs: "[ManualFlush, TimerTick, ManualFlush] \<noteq> []"
      "set [ManualFlush, TimerTick, ManualFlush] \<subseteq> {TimerTick, ManualFlush}"
    using one_pending_fields by (simp_all add: one_pending_def)
  note a = at_most_one_sender_call_in_flight
    [OF new, of "[Add (ev ''e1''), Add (ev ''e2'')]" "[]"]
  note b = at_most_one_sender_call_in_flight
    [OF new, of "[Add (ev ''e1'')]" "[ManualFlush, TimerTick, ManualFlush]"]
  have 1: "length (awaiting (run [Add (ev ''e1''), Add (ev ''e2'')] (fresh_queue 2))) \<le> 1"
    using a by blast
  have 2: "EventQueue_flush (run [Add (ev ''e1''), Add (ev ''e2'')] (fresh_queue 2))
     = (Fulfilled, run [Add (ev ''e1''), Add (ev ''e2'')] (fresh_queue 2))"
    using a busy by blast
  have 3: "onFlush_calls (run [ManualFlush, TimerTick, ManualFlush]
              (run [Add (ev ''e1'')] (fresh_queue 2)))
            = onFlush_calls (run [Add (ev ''e1'')] (fresh_queue 2))
                @ [events (run [Add (ev ''e1'')] (fresh_queue 2))] \<and>
           awaiting (run [ManualFlush, TimerTick, ManualFlush]
              (run [Add (ev ''e1'')] (fresh_queue 2)))
            = [events (run [Add (ev ''e1'')] (fresh_queue 2))]"
    using b idle ne fs by blast
  have 4: "onFlush_calls (run [Add (ev ''e1'')] (fresh_queue 2)) = []"
    "events (run [Add (ev ''e1'')] (fresh_queue 2)) = [ev ''e1'']"
    using one_pending_fields by (simp_all add: one_pending_def)
  show ?thesis
    using new busy idle 1 2 3 by (simp add: 4)
qed

text \<open>
  C6, as the code has it. When the sender fails, \<^verbatim>\<open>flush\<close> logs the failure with
  \<^verbatim>\<open>console.error\<close>, puts the batch back and clears the flag; the promise \<^verbatim>\<open>flush()\<close>
  returned is fulfilled. No promise of \<^verbatim>\<open>flush()\<close> is ever rejected, whoever called it:
  not at the call, and not when the sender settles, whatever the outcome.
\<close>

theorem delivery_failure_is_logged_and_promise_fulfilled:
  "fst (EventQueue_flush_resume b outcome q) = Fulfilled \<and>
   (\<forall>e. fst (EventQueue_flush q) \<noteq> Rejected e) \<and>
   (\<forall>i e. fst (settle i outcome q) \<noteq> Rejected e) \<and>
   (''Failed to flush events:'', err)
      \<in> set (console (window (snd (EventQueue_flush_resume b (Inl err) q)))) \<and>
   events (snd (EventQueue_flush_resume b (Inl err) q)) = b @ events q \<and>
   \<not> isProcessing (snd (EventQueue_flush_resume b (Inl err) q))"
proof -
  have 1: "fst (EventQueue_flush_resume b outcome q) = Fulfilled" for b q
    by (cases outcome) (simp_all add: resume_ok resume_failed)
  have 2: "fst (EventQueue_flush q) \<noteq> Rejected e" for e
    by (cases "events q = [] \<or> isProcessing q") (auto simp add: flush_noop flush_idle)
  have 3: "fst (settle i outcome q) \<noteq> Rejected e" for i e
    using 1 by (simp add: settle_def)
  have 4: "(''Failed to flush events:'', err)
      \<in> set (console (window (snd (EventQueue_flush_resume b (Inl err) q))))"
    by (simp add: resume_failed Storage_set_eq console_error_def)
  show ?thesis
    using 1 2 3 4 by (simp add: resume_failed)
qed

theorem delivery_failure_is_logged_and_promise_fulfilled_witness:
  "fst (EventQueue_flush_resume [ev ''e1'', ev ''e2''] (Inl (Error ''Network error'')) in_flight)
     = Fulfilled \<and>
   events (snd (EventQueue_flush_resume [ev ''e1'', ev ''e2''] (Inl (Error ''Network error''))
                  in_flight)) = [ev ''e1'', ev ''e2''] \<and>
   (''Failed to flush events:'', Error ''Network error'')
      \<in> set (console (window (snd (EventQueue_flush_resume [ev ''e1'', ev ''e2'']
                 (Inl (Error ''Network error'')) in_flight))))"
  using delivery_failure_is_logged_and_promise_fulfilled
    [of "[ev ''e1'', ev ''e2'']" "Inl (Error ''Network error'')" in_flight "Error ''Network error''"]
  by (simp add: in_flight_fields)

text \<open>
  C6 says the promise of an explicit \<^verbatim>\<open>flush()\<close> rejects when delivery fails. With
  \<^verbatim>\<open>batchSize\<close> 10, one event added and \<^verbatim>\<open>flush()\<close> called, the promise is pending; when
  the sender fails with "Network error" it is fulfilled, not rejected.
\<close>

theorem explicit_flush_rejects_counterexample:
  "fst (EventQueue_flush (snd (EventQueue_add (ev ''event1'') (fresh_queue 10)))) = Pending \<and>
   awaiting (snd (EventQueue_flush (snd (EventQueue_add (ev ''event1'') (fresh_queue 10)))))
     = [[ev ''event1'']] \<and>
   fst (settle 0 (Inl (Error ''Network error''))
          (snd (EventQueue_flush (snd (EventQueue_add (ev ''event1'') (fresh_queue 10))))))
     = Fulfilled \<and>
   fst (settle 0 (Inl (Error ''Network error''))
          (snd (EventQueue_flush (snd (EventQueue_add (ev ''event1'') (fresh_queue 10))))))
     \<noteq> Rejected (Error ''Network error'')"
  by (simp add: fresh_queue_def empty_page_def EventQueue_add_def persistEvents_def
      Storage_set_def localStorage_setItem_def JSON_stringify_def EventQueue_flush_def
      settle_def EventQueue_flush_resume_def console_error_def Let_def)

text \<open>
  C7. For every queue state, \<^verbatim>\<open>clear()\<close> returns normally, empties the in-memory pending
  sequence and calls no sender (no call is added, no batch awaited). Every key of the
  storage that starts with the queue's prefix is removed and every other key is kept
  (when the storage can be reached at all); in every case, whatever key is then read
  through the queue's \<^verbatim>\<open>Storage\<close> comes back absent, and a queue constructed in the page
  as \<^verbatim>\<open>clear()\<close> leaves it has \<^verbatim>\<open>size() == 0\<close>.
\<close>

theorem clear_erases_memory_and_namespace:
  assumes "storage q = ''analytics_queue_''"
  shows "fst (EventQueue_clear q) = Inr () \<and>
         events (snd (EventQueue_clear q)) = [] \<and>
         EventQueue_size (snd (EventQueue_clear q)) = 0 \<and>
         onFlush_calls (snd (EventQueue_clear q)) = onFlush_calls q \<and>
         awaiting (snd (EventQueue_clear q)) = awaiting q \<and>
         (accessible (window q) \<longrightarrow>
            items (window (snd (EventQueue_clear q)))
              = filter (\<lambda>kv. \<not> startsWith (fst kv) (storage q)) (items (window q))) \<and>
         (\<forall>key. fst (Storage_get (storage q) key (window (snd (EventQueue_clear q)))) = Inr JNull) \<and>
         (\<forall>bs fi. \<exists>q'. EventQueue_new bs fi (window (snd (EventQueue_clear q))) = Inr q' \<and>
                         EventQueue_size q' = 0)"
proof -
  have a: "fst (EventQueue_clear q) = Inr ()"
    and b: "events (snd (EventQueue_clear q)) = []"
    and c: "onFlush_calls (snd (EventQueue_clear q)) = onFlush_calls q"
    and d: "awaiting (snd (EventQueue_clear q)) = awaiting q"
    and w: "window (snd (EventQueue_clear q)) = snd (Storage_clear (storage q) (window q))"
    by (simp_all add: clear_eq)
  have e: "accessible (window q) \<longrightarrow>
            items (window (snd (EventQueue_clear q)))
              = filter (\<lambda>kv. \<not> startsWith (fst kv) (storage q)) (items (window q))"
    by (simp add: w Storage_clear_eq)
  have f: "\<And>key. fst (Storage_get (storage q) key (window (snd (EventQueue_clear q)))) = Inr JNull"
    by (simp only: w get_after_clear)
  have g: "\<exists>q'. EventQueue_new bs fi (window (snd (EventQueue_clear q))) = Inr q' \<and>
                 EventQueue_size q' = 0" for bs fi
    using f [of "''events''"] assms by (simp add: new_eq EventQueue_size_def)
  show ?thesis
    using a b c d e f g by (simp add: EventQueue_size_def)
qed

theorem clear_erases_memory_and_namespace_witness:
  "EventQueue_new 10 10000 stored_page = Inr restored_queue \<and>
   storage restored_queue = ''analytics_queue_'' \<and>
   accessible (window restored_queue) \<and>
   EventQueue_size restored_queue = 2 \<and>
   events (snd (EventQueue_clear restored_queue)) = [] \<and>
   items (window (snd (EventQueue_clear restored_queue)))
     = [(''analytics_user'', Stringified (JStr ''u1''))] \<and>
   (\<exists>q'. EventQueue_new 10 10000 (window (snd (EventQueue_clear restored_queue))) = Inr q' \<and>
         EventQueue_size q' = 0)"
proof -
  have h: "storage restored_queue = ''analytics_queue_''"
    by (simp add: restored_queue_def fresh_queue_def)
  have acc: "accessible (window restored_queue)"
    by (simp add: restored_queue_def stored_page_def)
  have two: "EventQueue_size restored_queue = 2"
    by (simp add: restored_queue_def EventQueue_size_def)
  note t = clear_erases_memory_and_namespace [OF h]
  have i: "items (window (snd (EventQueue_clear restored_queue)))
           = filter (\<lambda>kv. \<not> startsWith (fst kv) (storage restored_queue))
               (items (window restored_queue))"
    using t acc by blast
  have i': "filter (\<lambda>kv. \<not> startsWith (fst kv) (storage restored_queue))
               (items (window restored_queue))
            = [(''analytics_user'', Stringified (JStr ''u1''))]"
    by (simp add: restored_queue_def fresh_queue_def stored_page_def startsWith_def)
  show ?thesis
    using new_in_stored_page h acc two t i i' by simp
qed

text \<open>
  C8. For every prefix, key, value and page, \<^verbatim>\<open>get\<close>, \<^verbatim>\<open>set\<close>, \<^verbatim>\<open>remove\<close> and
  \<^verbatim>\<open>clear\<close> of \<^verbatim>\<open>Storage\<close> return a value and never throw. Whenever the underlying
  \<^verbatim>\<open>localStorage\<close> call (or \<^verbatim>\<open>JSON.parse\<close>) throws, \<^verbatim>\<open>get\<close> returns \<^verbatim>\<open>null\<close> and
  \<^verbatim>\<open>set\<close>, \<^verbatim>\<open>remove\<close>, \<^verbatim>\<open>clear\<close> return \<^verbatim>\<open>false\<close>, and the only change to the page is
  the logged error (the cells stay as they were). The queue methods that call them
  return normally and change nothing of the queue but its page (and what they assign
  themselves): the in-memory sequence stays as the queue has it.
\<close>

theorem storage_never_throws:
  "(\<exists>r. fst (Storage_get prefix key w) = Inr r) \<and>
   (\<exists>ok. fst (Storage_set prefix key v w) = Inr ok) \<and>
   (\<exists>ok. fst (Storage_remove prefix key w) = Inr ok) \<and>
   (\<exists>ok. fst (Storage_clear prefix w) = Inr ok) \<and>
   (\<forall>err. localStorage_getItem (prefix @ key) w = Inl err \<longrightarrow>
      Storage_get prefix key w = (Inr JNull, console_error ''Storage get error:'' err w)) \<and>
   (\<forall>item err. localStorage_getItem (prefix @ key) w = Inr (Some item) \<and>
        stored_truthy item \<and> JSON_parse item = Inl err \<longrightarrow>
      Storage_get prefix key w = (Inr JNull, console_error ''Storage get error:'' err w)) \<and>
   (\<forall>err. localStorage_setItem (prefix @ key) (JSON_stringify v) w = Inl err \<longrightarrow>
      Storage_set prefix key v w = (Inr False, console_error ''Storage set error:'' err w)) \<and>
   (\<forall>err. localStorage_removeItem (prefix @ key) w = Inl err \<longrightarrow>
      Storage_remove prefix key w = (Inr False, console_error ''Storage remove error:'' err w)) \<and>
   (\<forall>err. Object_keys_localStorage w = Inl err \<longrightarrow>
      Storage_clear prefix w = (Inr False, console_error ''Storage clear error:'' err w)) \<and>
   (\<forall>msg err. items (console_error msg err w) = items w) \<and>
   persistEvents q =
     (Inr (), q\<lparr>window := snd (Storage_set (storage q) ''events'' (JArr (events q)) (window q))\<rparr>) \<and>
   EventQueue_clear q =
     (Inr (), q\<lparr>events := [], window := snd (Storage_clear (storage q) (window q))\<rparr>) \<and>
   (fst (Storage_get (storage q) ''events'' (window q)) = Inr JNull \<longrightarrow>
      loadPersistedEvents q =
        (Inr (), q\<lparr>window := snd (Storage_get (storage q) ''events'' (window q))\<rparr>))"
proof -
  have g: "\<exists>r. fst (Storage_get prefix key w) = Inr r"
    by (auto simp add: Storage_get_def split: sum.split)
  have s: "\<exists>ok. fst (Storage_set prefix key v w) = Inr ok"
    by (auto simp add: Storage_set_def split: sum.split)
  have r: "\<exists>ok. fst (Storage_remove prefix key w) = Inr ok"
    by (auto simp add: Storage_remove_def split: sum.split)
  have c: "\<exists>ok. fst (Storage_clear prefix w) = Inr ok"
    by (rule Storage_clear_never_throws)
  have gf: "\<forall>err. localStorage_getItem (prefix @ key) w = Inl err \<longrightarrow>
      Storage_get prefix key w = (Inr JNull, console_error ''Storage get error:'' err w)"
    by (simp add: Storage_get_def)
  have gp: "\<forall>item err. localStorage_getItem (prefix @ key) w = Inr (Some item) \<and>
        stored_truthy item \<and> JSON_parse item = Inl err \<longrightarrow>
      Storage_get prefix key w = (Inr JNull, console_error ''Storage get error:'' err w)"
    by (simp add: Storage_get_def)
  have sf: "\<forall>err. localStorage_setItem (prefix @ key) (JSON_stringify v) w = Inl err \<longrightarrow>
      Storage_set prefix key v w = (Inr False, console_error ''Storage set error:'' err w)"
    by (simp add: Storage_set_def)
  have rf: "\<forall>err. localStorage_removeItem (prefix @ key) w = Inl err \<longrightarrow>
      Storage_remove prefix key w = (Inr False, console_error ''Storage remove error:'' err w)"
    by (simp add: Storage_remove_def)
  have cf: "\<forall>err. Object_keys_localStorage w = Inl err \<longrightarrow>
      Storage_clear prefix w = (Inr False, console_error ''Storage clear error:'' err w)"
    by (simp add: Storage_clear_def)
  have it: "\<forall>msg err. items (console_error msg err w) = items w"
    by (simp add: console_error_def)
  have l: "fst (Storage_get (storage q) ''events'' (window q)) = Inr JNull \<longrightarrow>
      loadPersistedEvents q =
        (Inr (), q\<lparr>window := snd (Storage_get (storage q) ''events'' (window q))\<rparr>)"
    by (simp add: load_eq)
  show ?thesis
    using g s r c gf gp sf rf cf it l persistEvents_eq [of q] clear_eq [of q] by blast
qed

theorem storage_never_throws_witness:
  "localStorage_getItem (''analytics_queue_'' @ ''events'') denied_page
     = Inl (Error ''SecurityError'') \<and>
   Storage_get ''analytics_queue_'' ''events'' denied_page
     = (Inr JNull, console_error ''Storage get error:'' (Error ''SecurityError'') denied_page) \<and>
   localStorage_removeItem (''analytics_queue_'' @ ''events'') denied_page
     = Inl (Error ''SecurityError'') \<and>
   Storage_remove ''analytics_queue_'' ''events'' denied_page
     = (Inr False, console_error ''Storage remove error:'' (Error ''SecurityError'') denied_page) \<and>
   Object_keys_localStorage denied_page = Inl (Error ''SecurityError'') \<and>
   Storage_clear ''analytics_queue_'' denied_page
     = (Inr False, console_error ''Storage clear error:'' (Error ''SecurityError'') denied_page) \<and>
   localStorage_setItem (''analytics_queue_'' @ ''events'') (JSON_stringify (JArr [ev ''e3''])) full_page
     = Inl (Error ''QuotaExceededError'') \<and>
   Storage_set ''analytics_queue_'' ''events'' (JArr [ev ''e3'']) full_page
     = (Inr False, console_error ''Storage set error:'' (Error ''QuotaExceededError'') full_page) \<and>
   localStorage_getItem (''analytics_queue_'' @ ''events'') garbled_page
     = Inr (Some (NotJson ''[{'')) \<and>
   Storage_get ''analytics_queue_'' ''events'' garbled_page
     = (Inr JNull, console_error ''Storage get error:'' (Error ''SyntaxError'') garbled_page) \<and>
   fst (Storage_get (storage ((fresh_queue 10)\<lparr>window := garbled_page\<rparr>)) ''events''
          (window ((fresh_queue 10)\<lparr>window := garbled_page\<rparr>))) = Inr JNull \<and>
   events (snd (loadPersistedEvents ((fresh_queue 10)\<lparr>window := garbled_page\<rparr>))) = []"
proof -
  let ?p = "''analytics_queue_''" and ?k = "''events''"
  let ?q = "(fresh_queue 10)\<lparr>window := garbled_page\<rparr>"
  have g: "localStorage_getItem (?p @ ?k) denied_page = Inl (Error ''SecurityError'')"
    by (simp add: localStorage_getItem_def denied_page_def)
  have r: "localStorage_removeItem (?p @ ?k) denied_page = Inl (Error ''SecurityError'')"
    by (simp add: localStorage_removeItem_def denied_page_def)
  have c: "Object_keys_localStorage denied_page = Inl (Error ''SecurityError'')"
    by (simp add: Object_keys_localStorage_def denied_page_def)
  have s: "localStorage_setItem (?p @ ?k) (JSON_stringify (JArr [ev ''e3''])) full_page
             = Inl (Error ''QuotaExceededError'')"
    by (simp add: localStorage_setItem_def full_page_def stored_page_def)
  have p: "localStorage_getItem (?p @ ?k) garbled_page = Inr (Some (NotJson ''[{'')) \<and>
           stored_truthy (NotJson ''[{'') \<and> JSON_parse (NotJson ''[{'') = Inl (Error ''SyntaxError'')"
    by (simp add: localStorage_getItem_def garbled_page_def)
  note d = storage_never_throws [of ?p ?k denied_page "JArr [ev ''e3'']" ?q]
  note f = storage_never_throws [of ?p ?k full_page "JArr [ev ''e3'']" ?q]
  note b = storage_never_throws [of ?p ?k garbled_page "JArr [ev ''e3'']" ?q]
  have 1: "Storage_get ?p ?k denied_page
     = (Inr JNull, console_error ''Storage get error:'' (Error ''SecurityError'') denied_page)"
    using d g by blast
  have 2: "Storage_remove ?p ?k denied_page
     = (Inr False, console_error ''Storage remove error:'' (Error ''SecurityError'') denied_page)"
    using d r by blast
  have 3: "Storage_clear ?p denied_page
     = (Inr False, console_error ''Storage clear error:'' (Error ''SecurityError'') denied_page)"
    using d c by blast
  have 4: "Storage_set ?p ?k (JArr [ev ''e3'']) full_page
     = (Inr False, console_error ''Storage set error:'' (Error ''QuotaExceededError'') full_page)"
    using f s by blast
  have 5: "Storage_get ?p ?k garbled_page
     = (Inr JNull, console_error ''Storage get error:'' (Error ''SyntaxError'') garbled_page)"
    using b p by blast
  have 6: "fst (Storage_get (storage ?q) ''events'' (window ?q)) = Inr JNull"
    using 5 by (simp add: fresh_queue_def)
  have 7: "events (snd (loadPersistedEvents ?q)) = []"
    using b 6 by (simp add: fresh_queue_def)
  show ?thesis
    using g r c s p 1 2 3 4 5 6 7 by simp
qed

text \<open>
  C9, as the code has it. While the processing flag is set, \<^verbatim>\<open>add\<close> appends the event
  and calls no sender, whatever \<^verbatim>\<open>batchSize\<close> is: the flush it may trigger is a no-op.
  No sequence of calls without a settlement calls the sender or clears the flag, and the
  settlement itself calls no sender and keeps the added events pending. Once the queue
  is idle again, the pending events go to the sender at the next flush that runs, which
  may be an explicit one, the timer's, or the one triggered by a later \<^verbatim>\<open>add\<close> that finds
  the size at or above \<^verbatim>\<open>batchSize\<close>.
\<close>

theorem add_while_in_flight_calls_no_sender:
  assumes busy: "isProcessing q"
  shows "fst (EventQueue_add e q) = Inr () \<and>
         events (snd (EventQueue_add e q)) = events q @ [e] \<and>
         onFlush_calls (snd (EventQueue_add e q)) = onFlush_calls q \<and>
         awaiting (snd (EventQueue_add e q)) = awaiting q \<and>
         isProcessing (snd (EventQueue_add e q)) \<and>
         EventQueue_flush (snd (persistEvents (q\<lparr>events := events q @ [e]\<rparr>)))
           = (Fulfilled, snd (persistEvents (q\<lparr>events := events q @ [e]\<rparr>))) \<and>
         ((\<forall>a \<in> set acts. \<forall>i r. a \<noteq> Settle i r) \<longrightarrow>
            onFlush_calls (run acts q) = onFlush_calls q \<and> isProcessing (run acts q)) \<and>
         onFlush_calls (snd (settle i r q)) = onFlush_calls q \<and>
         (\<exists>b. events (snd (settle i r q)) = b @ events q) \<and>
         (\<not> isProcessing q' \<and> events q' \<noteq> [] \<longrightarrow>
            onFlush_calls (exec ManualFlush q') = onFlush_calls q' @ [events q'] \<and>
            onFlush_calls (exec TimerTick q') = onFlush_calls q' @ [events q'] \<and>
            (batchSize q' \<le> int (length (events q')) + 1 \<longrightarrow>
               onFlush_calls (exec (Add e') q') = onFlush_calls q' @ [events q' @ [e']])) \<and>
         (onFlush_calls (exec a q'') \<noteq> onFlush_calls q'' \<longrightarrow>
            \<not> isProcessing q'' \<and> (a = TimerTick \<or> a = ManualFlush \<or> (\<exists>e''. a = Add e'')))"
proof -
  have 1: "fst (EventQueue_add e q) = Inr () \<and>
         events (snd (EventQueue_add e q)) = events q @ [e] \<and>
         onFlush_calls (snd (EventQueue_add e q)) = onFlush_calls q \<and>
         awaiting (snd (EventQueue_add e q)) = awaiting q \<and>
         isProcessing (snd (EventQueue_add e q))"
    using busy by (simp add: add_processing)
  have 2: "EventQueue_flush (snd (persistEvents (q\<lparr>events := events q @ [e]\<rparr>)))
           = (Fulfilled, snd (persistEvents (q\<lparr>events := events q @ [e]\<rparr>)))"
    using busy by (intro flush_noop) (simp add: persistEvents_eq)
  have 3: "(\<forall>a \<in> set acts. \<forall>i r. a \<noteq> Settle i r) \<longrightarrow>
            onFlush_calls (run acts q) = onFlush_calls q \<and> isProcessing (run acts q)"
    using run_while_processing [OF busy, of acts] by blast
  have 4: "onFlush_calls (snd (settle i r q)) = onFlush_calls q \<and>
           (\<exists>b. events (snd (settle i r q)) = b @ events q)"
  proof (cases "i < length (awaiting q)")
    case True
    show ?thesis
      unfolding settle_eq [OF True] by (cases r) simp_all
  next
    case False
    then show ?thesis by (simp add: settle_out_of_range)
  qed
  have 5: "onFlush_calls (exec ManualFlush q') = onFlush_calls q' @ [events q'] \<and>
           onFlush_calls (exec TimerTick q') = onFlush_calls q' @ [events q'] \<and>
           (batchSize q' \<le> int (length (events q')) + 1 \<longrightarrow>
              onFlush_calls (exec (Add e') q') = onFlush_calls q' @ [events q' @ [e']])"
    if "\<not> isProcessing q'" "events q' \<noteq> []"
    using that by (simp add: flush_idle timer_callback_def add_trigger)
  have 6: "onFlush_calls (exec a q'') \<noteq> onFlush_calls q'' \<longrightarrow>
            \<not> isProcessing q'' \<and> (a = TimerTick \<or> a = ManualFlush \<or> (\<exists>e''. a = Add e''))"
    using sender_called_only_by_flush_when_idle [of a q''] by blast
  show ?thesis
    using 1 2 3 4 5 6 by blast
qed

theorem add_while_in_flight_calls_no_sender_witness:
  "isProcessing in_flight \<and>
   batchSize in_flight \<le> int (length (events (snd (EventQueue_add (ev ''e3'')
      (snd (EventQueue_add (ev ''e4'') in_flight)))))) \<and>
   onFlush_calls (snd (EventQueue_add (ev ''e3'') in_flight)) = [[ev ''e1'', ev ''e2'']] \<and>
   events (snd (EventQueue_add (ev ''e3'') in_flight)) = [ev ''e3''] \<and>
   onFlush_calls (run [Add (ev ''e3''), Add (ev ''e4''), TimerTick, ManualFlush, Clear] in_flight)
     = [[ev ''e1'', ev ''e2'']] \<and>
   \<not> isProcessing settled_with_one \<and> events settled_with_one \<noteq> [] \<and>
   batchSize settled_with_one \<le> int (length (events settled_with_one)) + 1 \<and>
   onFlush_calls (exec ManualFlush settled_with_one) = [[ev ''e1'', ev ''e2''], [ev ''e3'']] \<and>
   onFlush_calls (exec TimerTick settled_with_one) = [[ev ''e1'', ev ''e2''], [ev ''e3'']] \<and>
   onFlush_calls (exec (Add (ev ''e4'')) settled_with_one)
     = [[ev ''e1'', ev ''e2''], [ev ''e3'', ev ''e4'']] \<and>
   onFlush_calls (exec (Add (ev ''e4'')) settled_with_one) \<noteq> onFlush_calls settled_with_one"
proof -
  have busy: "isProcessing in_flight"
    by (rule in_flight_fields)
  have na: "\<forall>a \<in> set [Add (ev ''e3''), Add (ev ''e4''), TimerTick, ManualFlush, Clear].
              \<forall>i r. a \<noteq> Settle i r"
    by simp
  have idle: "\<not> isProcessing settled_with_one \<and> events settled_with_one \<noteq> []"
    and trig: "batchSize settled_with_one \<le> int (length (events settled_with_one)) + 1"
    by (simp_all add: settled_with_one_fields)
  note t = add_while_in_flight_calls_no_sender [OF busy, of "ev ''e3''"
      "[Add (ev ''e3''), Add (ev ''e4''), TimerTick, ManualFlush, Clear]" _ _
      settled_with_one "ev ''e4''" "Add (ev ''e4'')" settled_with_one]
  have 1: "onFlush_calls (snd (EventQueue_add (ev ''e3'') in_flight)) = onFlush_calls in_flight \<and>
           events (snd (EventQueue_add (ev ''e3'') in_flight)) = events in_flight @ [ev ''e3'']"
    using t by blast
  have 2: "onFlush_calls (run [Add (ev ''e3''), Add (ev ''e4''), TimerTick, ManualFlush, Clear]
             in_flight) = onFlush_calls in_flight"
    using t na by blast
  have 3: "onFlush_calls (exec ManualFlush settled_with_one)
             = onFlush_calls settled_with_one @ [events settled_with_one] \<and>
           onFlush_calls (exec TimerTick settled_with_one)
             = onFlush_calls settled_with_one @ [events settled_with_one] \<and>
           onFlush_calls (exec (Add (ev ''e4'')) settled_with_one)
             = onFlush_calls settled_with_one @ [events settled_with_one @ [ev ''e4'']]"
    using t idle trig by blast
  have 4: "batchSize in_flight \<le> int (length (events (snd (EventQueue_add (ev ''e3'')
      (snd (EventQueue_add (ev ''e4'') in_flight))))))"
    by (simp add: in_flight_def evaluate)
  have 5: "onFlush_calls (exec (Add (ev ''e4'')) settled_with_one) \<noteq> onFlush_calls settled_with_one"
    using 3 by (simp add: settled_with_one_fields)
  have 6: "\<not> isProcessing settled_with_one \<and>
           (Add (ev ''e4'') = TimerTick \<or> Add (ev ''e4'') = ManualFlush \<or>
            (\<exists>e''. Add (ev ''e4'') = Add e''))"
    using t 5 by blast
  show ?thesis
    using busy idle trig 1 2 3 4 5 6 by (simp add: in_flight_fields settled_with_one_fields)
qed

text \<open>
  C9 says the events added during a delivery are delivered only by a later timer-driven
  or explicit flush. With \<^verbatim>\<open>batchSize\<close> 2: two adds start a delivery, two more adds are
  held back, the delivery succeeds, and a fifth add, with no timer tick and no explicit
  flush anywhere, sends the two held events together with the fifth.
\<close>

theorem delivered_only_by_timer_or_manual_flush_counterexample:
  "isProcessing (run [Add (ev ''e1''), Add (ev ''e2'')] (fresh_queue 2)) \<and>
   onFlush_calls (run [Add (ev ''e1''), Add (ev ''e2''), Add (ev ''e3''), Add (ev ''e4'')]
                    (fresh_queue 2)) = [[ev ''e1'', ev ''e2'']] \<and>
   events (run [Add (ev ''e1''), Add (ev ''e2''), Add (ev ''e3''), Add (ev ''e4'')]
             (fresh_queue 2)) = [ev ''e3'', ev ''e4''] \<and>
   onFlush_calls (run [Add (ev ''e1''), Add (ev ''e2''), Add (ev ''e3''), Add (ev ''e4''),
                       Settle 0 (Inr ()), Add (ev ''e5'')] (fresh_queue 2))
     = [[ev ''e1'', ev ''e2''], [ev ''e3'', ev ''e4'', ev ''e5'']]"
  by (simp add: run_def fresh_queue_def empty_page_def EventQueue_add_def persistEvents_def
      Storage_set_def localStorage_setItem_def JSON_stringify_def EventQueue_flush_def
      settle_def EventQueue_flush_resume_def console_error_def Let_def)

text \<open>
  C10. If \<^verbatim>\<open>clear()\<close> is called while the \<open>i\<close>-th sender promise is pending and the sender
  then fails, the batch of that delivery is put back into the emptied pending sequence
  and handed to \<^verbatim>\<open>Storage.set\<close> again (when the storage takes the write, reading the key
  back gives the batch): after the failure settles the pending sequence is the batch,
  \<^verbatim>\<open>size()\<close> is its length (not 0 for a non-empty batch), and the flag is cleared.
\<close>

theorem clear_does_not_cancel_failing_flush:
  assumes inflight: "i < length (awaiting q)"
  shows "(let q1 = snd (EventQueue_clear q);
              q2 = snd (settle i (Inl err) q1)
          in events q1 = [] \<and>
             awaiting q1 = awaiting q \<and>
             fst (settle i (Inl err) q1) = Fulfilled \<and>
             events q2 = awaiting q ! i \<and>
             EventQueue_size q2 = length (awaiting q ! i) \<and>
             (awaiting q ! i \<noteq> [] \<longrightarrow> EventQueue_size q2 \<noteq> 0) \<and>
             \<not> isProcessing q2 \<and>
             window q2 = snd (Storage_set (storage q) ''events'' (JArr (awaiting q ! i))
                               (console_error ''Failed to flush events:'' err (window q1))) \<and>
             (accessible (window q) \<and> \<not> quotaExceeded (window q) \<longrightarrow>
                fst (Storage_get (storage q) ''events'' (window q2)) = Inr (JArr (awaiting q ! i))))"
proof -
  define q1 where "q1 = snd (EventQueue_clear q)"
  define q2 where "q2 = snd (settle i (Inl err) q1)"
  have 1: "events q1 = []" "awaiting q1 = awaiting q" "storage q1 = storage q"
    "accessible (window q1) = accessible (window q)"
    "quotaExceeded (window q1) = quotaExceeded (window q)"
    unfolding q1_def by (simp_all add: clear_eq Storage_clear_eq console_error_def)
  have lt: "i < length (awaiting q1)" using inflight 1 by simp
  have 2: "fst (settle i (Inl err) q1) = Fulfilled" "events q2 = awaiting q ! i"
    "\<not> isProcessing q2"
    "window q2 = snd (Storage_set (storage q) ''events'' (JArr (awaiting q ! i))
                               (console_error ''Failed to flush events:'' err (window q1)))"
    unfolding q2_def settle_eq [OF lt] using 1 by simp_all
  have 3: "fst (Storage_get (storage q) ''events'' (window q2)) = Inr (JArr (awaiting q ! i))"
    if "accessible (window q) \<and> \<not> quotaExceeded (window q)"
    unfolding 2(4) using that 1 by (intro get_after_set) (simp_all add: console_error_def)
  have "events q1 = [] \<and>
             awaiting q1 = awaiting q \<and>
             fst (settle i (Inl err) q1) = Fulfilled \<and>
             events q2 = awaiting q ! i \<and>
             EventQueue_size q2 = length (awaiting q ! i) \<and>
             (awaiting q ! i \<noteq> [] \<longrightarrow> EventQueue_size q2 \<noteq> 0) \<and>
             \<not> isProcessing q2 \<and>
             window q2 = snd (Storage_set (storage q) ''events'' (JArr (awaiting q ! i))
                               (console_error ''Failed to flush events:'' err (window q1))) \<and>
             (accessible (window q) \<and> \<not> quotaExceeded (window q) \<longrightarrow>
                fst (Storage_get (storage q) ''events'' (window q2)) = Inr (JArr (awaiting q ! i)))"
    using 1 2 3 by (simp add: EventQueue_size_def)
  then show ?thesis
    unfolding Let_def q1_def q2_def .
qed

theorem clear_does_not_cancel_failing_flush_witness:
  "0 < length (awaiting in_flight) \<and>
   awaiting in_flight ! 0 \<noteq> [] \<and>
   accessible (window in_flight) \<and> \<not> quotaExceeded (window in_flight) \<and>
   events (snd (EventQueue_clear in_flight)) = [] \<and>
   events (snd (settle 0 (Inl (Error ''Network error'')) (snd (EventQueue_clear in_flight))))
     = [ev ''e1'', ev ''e2''] \<and>
   EventQueue_size (snd (settle 0 (Inl (Error ''Network error'')) (snd (EventQueue_clear in_flight))))
     = 2 \<and>
   fst (Storage_get ''analytics_queue_'' ''events''
     (window (snd (settle 0 (Inl (Error ''Network error'')) (snd (EventQueue_clear in_flight))))))
     = Inr (JArr [ev ''e1'', ev ''e2''])"
proof -
  have h: "0 < length (awaiting in_flight)"
    and ne: "awaiting in_flight ! 0 \<noteq> []"
    and acc: "accessible (window in_flight) \<and> \<not> quotaExceeded (window in_flight)"
    by (simp_all add: in_flight_fields)
  note t = clear_does_not_cancel_failing_flush [OF h, of "Error ''Network error''", unfolded Let_def]
  let ?q2 = "snd (settle 0 (Inl (Error ''Network error'')) (snd (EventQueue_clear in_flight)))"
  have 1: "events (snd (EventQueue_clear in_flight)) = []"
    using t by blast
  have 2: "events ?q2 = awaiting in_flight ! 0"
    using t by blast
  have 3: "EventQueue_size ?q2 = length (awaiting in_flight ! 0)"
    using t by blast
  have 4: "fst (Storage_get (storage in_flight) ''events'' (window ?q2))
             = Inr (JArr (awaiting in_flight ! 0))"
    using t acc by blast
  show ?thesis
    using h ne acc 1 2 3 4 by (simp add: in_flight_fields)
qed

end
